theory Spec2Isabelle
  imports Main "HOL-Library.Word" "HOL-Library.Sublist"
begin

unbundle bit_operations_syntax

section \<open>The growable string array of fuzz_policy.c\<close>

text \<open>
  \<^verbatim>\<open>struct dynamic_array { char **entries; size_t len; size_t size; }\<close>.
  The buffer behind \<open>entries\<close> is a list of slots. A slot that \<open>reallocarray\<close> has
  handed out and nobody has written yet holds garbage; a written slot holds the null pointer
  or a pointer to a heap string, represented by the string itself. \<open>entries = None\<close> is the
  null pointer. The field \<open>size\<close> of the source is called \<open>asize\<close> here. Both counters are
  \<open>size_t\<close>; they never exceed the number of input bytes plus 129, so they are modelled
  as natural numbers.
\<close>

datatype slot = Garbage | NullPtr | Ptr string

record dynamic_array =
  entries :: "slot list option"
  len :: nat
  asize :: nat

text \<open>The initialiser \<^verbatim>\<open>{ NULL }\<close>, which is also what \<^verbatim>\<open>memset(arr, 0, sizeof(*arr))\<close> leaves.\<close>

definition empty_array :: dynamic_array where
  "empty_array = \<lparr>entries = None, len = 0, asize = 0\<rparr>"

text \<open>
  What the harness does to the outside world, in order: the calls into the policy plugin
  with the vectors it passes, and the calls of \<^verbatim>\<open>free\<close> that \<open>free_dynamic_array\<close>
  makes, on a string of an array or on its buffer. \<open>Policy_open\<close> carries the
  settings, user_info and plugin_args vectors and the value the plugin returned;
  \<open>Policy_check\<close> carries argc, argv and env_add; \<open>Policy_close\<close> the exit status and
  the signal number.
\<close>

datatype event =
    Policy_open "slot list option" "slot list option" "slot list option" int
  | Policy_check int "slot list option" "slot list option"
  | Policy_close int int
  | Free_string string
  | Free_buffer

text \<open>
  How a consumer reads a null-terminated vector: the strings up to the first null pointer.
  Reading a garbage slot or running off the end of the buffer is undefined behaviour:
  \<open>None\<close>.
\<close>

fun strvec :: "slot list \<Rightarrow> string list option" where
  "strvec [] = None"
| "strvec (Garbage # vec) = None"
| "strvec (NullPtr # vec) = Some []"
| "strvec (Ptr s # vec) = (case strvec vec of None \<Rightarrow> None | Some ss \<Rightarrow> Some (s # ss))"

text \<open>\<^verbatim>\<open>for (i = 0; vec[i] != NULL; i++) free(vec[i]);\<close>\<close>

fun free_strvec :: "slot list \<Rightarrow> event list option" where
  "free_strvec [] = None"
| "free_strvec (Garbage # vec) = None"
| "free_strvec (NullPtr # vec) = Some []"
| "free_strvec (Ptr s # vec) =
     (case free_strvec vec of None \<Rightarrow> None | Some evs \<Rightarrow> Some (Free_string s # evs))"

definition free_dynamic_array :: "dynamic_array \<Rightarrow> (event list \<times> dynamic_array) option" where
  "free_dynamic_array arr =
     (case entries arr of
        None \<Rightarrow> Some ([], \<lparr>entries = None, len = 0, asize = 0\<rparr>)
      | Some vec \<Rightarrow>
          (case free_strvec vec of
             None \<Rightarrow> None
           | Some evs \<Rightarrow> Some (evs @ [Free_buffer], \<lparr>entries = None, len = 0, asize = 0\<rparr>)))"

text \<open>
  The allocator is part of the environment: \<open>ok k\<close> says whether the \<open>k\<close>-th allocation
  request that \<open>push\<close> makes in the iteration (a \<^verbatim>\<open>strdup\<close> or a \<^verbatim>\<open>reallocarray\<close>)
  succeeds. Every request, granted or not, advances the counter. The line buffer of
  \<^verbatim>\<open>getdelim\<close> is not counted: the decoder always gets it.
\<close>

type_synonym allocator = "nat \<Rightarrow> bool"

definition strdup :: "allocator \<Rightarrow> nat \<Rightarrow> string \<Rightarrow> string option \<times> nat" where
  "strdup ok k s = (if ok k then Some s else None, Suc k)"

text \<open>
  \<^verbatim>\<open>reallocarray(ptr, nmemb, sizeof(char *))\<close>: the old slots are kept, the new ones are
  not initialised; with a null \<open>ptr\<close> it is \<^verbatim>\<open>malloc\<close>.
\<close>

definition reallocarray :: "allocator \<Rightarrow> nat \<Rightarrow> slot list option \<Rightarrow> nat \<Rightarrow> slot list option \<times> nat" where
  "reallocarray ok k ptr nmemb =
     (if ok k
      then (let old = (case ptr of None \<Rightarrow> [] | Some buf \<Rightarrow> buf)
            in Some (take nmemb old @ replicate (nmemb - length old) Garbage))
      else None,
      Suc k)"

text \<open>A write \<^verbatim>\<open>buf[i] = v\<close>; outside the buffer it is undefined behaviour.\<close>

definition store :: "slot list \<Rightarrow> nat \<Rightarrow> slot \<Rightarrow> slot list option" where
  "store buf i v = (if i < length buf then Some (buf[i := v]) else None)"

text \<open>
  \<open>push\<close> returns the boolean of the source, the array and the allocation counter;
  \<open>None\<close> stands for undefined behaviour (a write through a null \<open>entries\<close> or outside
  the buffer). The three steps are the three statements of the source: duplicate the entry,
  grow the buffer by 128 slots when \<^verbatim>\<open>arr->len + (entry != NULL) >= arr->size\<close>, store the
  copy and the terminator. When the buffer cannot grow the copy is freed again and the array
  is not touched.
\<close>

definition push_copy :: "allocator \<Rightarrow> nat \<Rightarrow> string option \<Rightarrow> string option option \<times> nat" where
  "push_copy ok k entry =
     (case entry of
        None \<Rightarrow> (Some None, k)
      | Some s \<Rightarrow> (case strdup ok k s of (None, k') \<Rightarrow> (None, k') | (Some c, k') \<Rightarrow> (Some (Some c), k')))"

definition push_grow :: "allocator \<Rightarrow> nat \<Rightarrow> dynamic_array \<Rightarrow> string option \<Rightarrow> dynamic_array option \<times> nat" where
  "push_grow ok k arr entry =
     (if len arr + (if entry \<noteq> None then 1 else 0) \<ge> asize arr
      then (case reallocarray ok k (entries arr) (asize arr + 128) of
              (None, k') \<Rightarrow> (None, k')
            | (Some tmp, k') \<Rightarrow> (Some (arr\<lparr>entries := Some tmp, asize := asize arr + 128\<rparr>), k'))
      else (Some arr, k))"

definition push_store :: "dynamic_array \<Rightarrow> string option \<Rightarrow> dynamic_array option" where
  "push_store arr copy =
     (case entries arr of
        None \<Rightarrow> None
      | Some buf \<Rightarrow>
          (case copy of
             None \<Rightarrow>
               (case store buf (len arr) NullPtr of
                  None \<Rightarrow> None
                | Some buf' \<Rightarrow> Some (arr\<lparr>entries := Some buf'\<rparr>))
           | Some c \<Rightarrow>
               (case store buf (len arr) (Ptr c) of
                  None \<Rightarrow> None
                | Some buf1 \<Rightarrow>
                    (case store buf1 (len arr + 1) NullPtr of
                       None \<Rightarrow> None
                     | Some buf2 \<Rightarrow> Some (arr\<lparr>entries := Some buf2, len := len arr + 1\<rparr>)))))"

definition push :: "allocator \<Rightarrow> nat \<Rightarrow> dynamic_array \<Rightarrow> string option \<Rightarrow> (bool \<times> dynamic_array \<times> nat) option" where
  "push ok k arr entry =
     (case push_copy ok k entry of
        (None, k1) \<Rightarrow> Some (False, arr, k1)
      | (Some copy, k1) \<Rightarrow>
          (case push_grow ok k1 arr entry of
             (None, k2) \<Rightarrow> Some (False, arr, k2)
           | (Some arr1, k2) \<Rightarrow>
               (case push_store arr1 copy of
                  None \<Rightarrow> None
                | Some arr2 \<Rightarrow> Some (True, arr2, k2))))"


section \<open>The input decoder\<close>

text \<open>
  The fuzz input is a buffer of bytes (\<^verbatim>\<open>uint8_t\<close>, here \<open>char\<close>), read through a
  stream. \<^verbatim>\<open>getdelim(&line, &linesize, delim, fp)\<close> takes the bytes up to and including
  the next delimiter, or up to the end of the stream; at the end of the stream it returns
  \<open>-1\<close> (\<open>None\<close>). The result is the record read and the rest of the stream.
\<close>

definition NUL :: char where
  "NUL = CHR 0x00"

definition newline :: char where
  "newline = CHR 0x0A"

fun getdelim :: "char \<Rightarrow> string \<Rightarrow> (string \<times> string) option" where
  "getdelim d [] = None"
| "getdelim d (c # cs) =
     (if c = d then Some ([c], cs)
      else (case getdelim d cs of
              None \<Rightarrow> Some ([c], [])
            | Some (l, r) \<Rightarrow> Some (c # l, r)))"

text \<open>
  \<^verbatim>\<open>if (line[linelen - 1] == '\n') line[linelen - 1] = '\0';\<close> on the buffer that
  \<^verbatim>\<open>getdelim\<close> filled: the record followed by its terminating NUL.
\<close>

definition strip_newline :: "string \<Rightarrow> string" where
  "strip_newline raw = (if last raw = newline then butlast raw @ [NUL] else raw) @ [NUL]"

text \<open>
  From here on the source treats \<open>line\<close> as a C string: the bytes before the first NUL.
  A record with a NUL byte inside is cut there.
\<close>

definition c_string :: "string \<Rightarrow> string" where
  "c_string buf = takeWhile (\<lambda>c. c \<noteq> NUL) buf"

text \<open>\<open>line[0]\<close> of a C string: its first byte, or the terminator when it is empty.\<close>

definition first_char :: "string \<Rightarrow> char" where
  "first_char line = (case line of [] \<Rightarrow> NUL | c # _ \<Rightarrow> c)"

text \<open>
  \<^verbatim>\<open>strncmp\<close> on C strings (lists without NUL; the end of the list is the terminator):
  the difference of the first pair of bytes that differ among the first \<open>n\<close>, as unsigned
  values, else \<open>0\<close>.
\<close>

fun strncmp :: "string \<Rightarrow> string \<Rightarrow> nat \<Rightarrow> int" where
  "strncmp s1 s2 0 = 0"
| "strncmp [] [] (Suc n) = 0"
| "strncmp [] (b # s2) (Suc n) = - of_char b"
| "strncmp (a # s1) [] (Suc n) = of_char a"
| "strncmp (a # s1) (b # s2) (Suc n) =
     (if a = b then strncmp s1 s2 n else of_char a - of_char b)"

text \<open>\<^verbatim>\<open>strncmp(line, key, sizeof(key) - 1) == 0\<close> for a string literal \<open>key\<close>.\<close>

definition key_match :: "string \<Rightarrow> string \<Rightarrow> bool" where
  "key_match line key = (strncmp line key (length key) = 0)"

section \<open>The line classifier\<close>

datatype target = Plugin_args | Settings | User_info | Argv | Env_add

text \<open>
  The chain of \<^verbatim>\<open>if (strncmp(...) == 0) { push(&X, line); continue; }\<close> of the source, in
  its order; the value is the array \<open>X\<close> of the first test that succeeds.
\<close>

definition classify :: "string \<Rightarrow> target" where
  "classify line =
     (if key_match line ''error_recovery='' then Plugin_args
      else if key_match line ''sudoers_file='' then Plugin_args
      else if key_match line ''sudoers_mode='' then Plugin_args
      else if key_match line ''sudoers_gid='' then Plugin_args
      else if key_match line ''sudoers_uid='' then Plugin_args
      else if key_match line ''ldap_conf='' then Plugin_args
      else if key_match line ''ldap_secret='' then Plugin_args
      else if key_match line ''user='' then User_info
      else if key_match line ''uid='' then User_info
      else if key_match line ''gid='' then User_info
      else if key_match line ''groups='' then User_info
      else if key_match line ''cwd='' then User_info
      else if key_match line ''tty='' then User_info
      else if key_match line ''host='' then User_info
      else if key_match line ''lines='' then User_info
      else if key_match line ''cols='' then User_info
      else if key_match line ''sid='' then User_info
      else if key_match line ''umask='' then User_info
      else if key_match line ''rlimit_'' then User_info
      else if key_match line ''argv='' then Argv
      else if key_match line ''env='' then Env_add
      else Settings)"

text \<open>The five local arrays of \<^verbatim>\<open>LLVMFuzzerTestOneInput\<close> and the allocation counter.\<close>

record collections =
  plugin_args :: dynamic_array
  settings :: dynamic_array
  user_info :: dynamic_array
  argv :: dynamic_array
  env_add :: dynamic_array
  allocs :: nat

definition init_collections :: collections where
  "init_collections =
     \<lparr>plugin_args = empty_array, settings = empty_array, user_info = empty_array,
      argv = empty_array, env_add = empty_array, allocs = 0\<rparr>"

fun get_array :: "target \<Rightarrow> collections \<Rightarrow> dynamic_array" where
  "get_array Plugin_args c = plugin_args c"
| "get_array Settings c = settings c"
| "get_array User_info c = user_info c"
| "get_array Argv c = argv c"
| "get_array Env_add c = env_add c"

fun set_array :: "target \<Rightarrow> dynamic_array \<Rightarrow> collections \<Rightarrow> collections" where
  "set_array Plugin_args a c = c\<lparr>plugin_args := a\<rparr>"
| "set_array Settings a c = c\<lparr>settings := a\<rparr>"
| "set_array User_info a c = c\<lparr>user_info := a\<rparr>"
| "set_array Argv a c = c\<lparr>argv := a\<rparr>"
| "set_array Env_add a c = c\<lparr>env_add := a\<rparr>"

text \<open>
  A statement \<^verbatim>\<open>push(&X, entry);\<close> of the harness. Every call site drops the boolean that
  \<open>push\<close> returns.
\<close>

definition push_into :: "allocator \<Rightarrow> target \<Rightarrow> collections \<Rightarrow> string option \<Rightarrow> collections option" where
  "push_into ok t c entry =
     (case push ok (allocs c) (get_array t c) entry of
        None \<Rightarrow> None
      | Some (r, arr, k) \<Rightarrow> Some ((set_array t arr c)\<lparr>allocs := k\<rparr>))"

text \<open>The body of the \<^verbatim>\<open>while\<close> loop for one record \<open>raw\<close> returned by \<^verbatim>\<open>getdelim\<close>.\<close>

definition process_line :: "allocator \<Rightarrow> collections \<Rightarrow> string \<Rightarrow> collections option" where
  "process_line ok c raw =
     (let line = c_string (strip_newline raw)
      in if first_char line = CHR ''#'' \<or> first_char line = NUL then Some c
         else push_into ok (classify line) c (Some line))"

text \<open>\<^verbatim>\<open>while ((linelen = getdelim(&line, &linesize, '\n', fp)) != -1) { ... }\<close>\<close>

function read_loop :: "allocator \<Rightarrow> collections \<Rightarrow> string \<Rightarrow> collections option" where
  "read_loop ok c fp =
     (case getdelim newline fp of
        None \<Rightarrow> Some c
      | Some (raw, rest) \<Rightarrow>
          (case process_line ok c raw of
             None \<Rightarrow> None
           | Some c' \<Rightarrow> read_loop ok c' rest))"
  by pat_completeness auto
termination
proof -
  have shorter: "length r < length s" if "getdelim d s = Some (l, r)" for d s l r
    using that by (induction s arbitrary: l r) (auto split: if_splits option.splits)
  show ?thesis
    by (relation "measure (\<lambda>(ok, c, fp). length fp)") (auto dest: shorter)
qed

declare read_loop.simps [simp del]

section \<open>The plugin lifecycle driver\<close>

text \<open>
  The policy plugin is an external collaborator. Of \<^verbatim>\<open>sudoers_policy\<close> the harness uses
  the value that \<open>open\<close> returns for the vectors it is given, and whether the \<open>close\<close>
  member is a null pointer. The API version, the two callbacks, \<^verbatim>\<open>environ\<close> and the
  out-parameters are the same in every call and are left out of the events.
\<close>

record policy_plugin =
  policy_open :: "slot list option \<Rightarrow> slot list option \<Rightarrow> slot list option \<Rightarrow> int"
  has_close :: bool

text \<open>The \<open>argc\<close> parameter of \<open>check_policy\<close> is an \<^verbatim>\<open>int\<close>; \<open>argv.len\<close> is converted.\<close>

definition int_of_size :: "nat \<Rightarrow> int" where
  "int_of_size n = sint (word_of_nat n :: 32 word)"

text \<open>
  The \<^verbatim>\<open>switch (res)\<close> and the call of \<open>close\<close> after it. In the third branch
  \<^verbatim>\<open>goto done\<close> jumps over the call of \<open>close\<close>.
\<close>

definition drive :: "allocator \<Rightarrow> policy_plugin \<Rightarrow> int \<Rightarrow> collections \<Rightarrow> (event list \<times> collections) option" where
  "drive ok plugin res c =
     (let close_call = (if has_close plugin then [Policy_close 0 0] else [])
      in if res = 0 then Some (close_call, c)
         else if res = 1 then
           (case (if len (argv c) = 0 then push_into ok Argv c (Some ''/usr/bin/id'') else Some c) of
              None \<Rightarrow> None
            | Some c' \<Rightarrow>
                Some (Policy_check (int_of_size (len (argv c'))) (entries (argv c')) (entries (env_add c'))
                        # close_call, c'))
         else Some ([], c))"

text \<open>
  The five \<^verbatim>\<open>free_dynamic_array\<close> calls at the label \<open>done\<close>. The release of the
  plugin's global user record before them touches no harness array and is not modelled.
\<close>

definition cleanup :: "collections \<Rightarrow> event list option" where
  "cleanup c =
     (case free_dynamic_array (plugin_args c) of None \<Rightarrow> None | Some (e1, _) \<Rightarrow>
      (case free_dynamic_array (settings c) of None \<Rightarrow> None | Some (e2, _) \<Rightarrow>
       (case free_dynamic_array (user_info c) of None \<Rightarrow> None | Some (e3, _) \<Rightarrow>
        (case free_dynamic_array (argv c) of None \<Rightarrow> None | Some (e4, _) \<Rightarrow>
         (case free_dynamic_array (env_add c) of None \<Rightarrow> None | Some (e5, _) \<Rightarrow>
            Some (e1 @ e2 @ e3 @ e4 @ e5))))))"

text \<open>
  One fuzz iteration. \<open>fp_ok\<close> says whether \<^verbatim>\<open>open_data\<close> returned a stream; \<open>ok\<close> is the
  allocator and \<open>plugin\<close> the policy plugin. The result is the list of events of the
  iteration, or \<open>None\<close> if the harness itself runs into undefined behaviour.
\<close>

definition LLVMFuzzerTestOneInput :: "bool \<Rightarrow> allocator \<Rightarrow> policy_plugin \<Rightarrow> string \<Rightarrow> event list option" where
  "LLVMFuzzerTestOneInput fp_ok ok plugin data =
     (if \<not> fp_ok then Some []
      else
        (case push_into ok User_info init_collections None of None \<Rightarrow> None | Some c1 \<Rightarrow>
         (case push_into ok Settings c1 None of None \<Rightarrow> None | Some c2 \<Rightarrow>
          (case read_loop ok c2 data of None \<Rightarrow> None | Some c3 \<Rightarrow>
           (let res = policy_open plugin (entries (settings c3)) (entries (user_info c3))
                        (entries (plugin_args c3))
            in (case drive ok plugin res c3 of None \<Rightarrow> None | Some (evs, c4) \<Rightarrow>
                (case cleanup c4 of None \<Rightarrow> None | Some frees \<Rightarrow>
                   Some (Policy_open (entries (settings c3)) (entries (user_info c3))
                           (entries (plugin_args c3)) res # evs @ frees))))))))"


section \<open>The callbacks handed to the plugin\<close>

text \<open>
  The message-type constants come from sudo's plugin API header, which is not among the
  sources; they are parameters of the model. C requires the labels of one \<^verbatim>\<open>switch\<close> to be
  distinct, which \<open>valid_consts\<close> records. \<open>sudo_plugin_h\<close> is one instance.
\<close>

record conv_consts =
  SUDO_CONV_PROMPT_ECHO_OFF :: int
  SUDO_CONV_PROMPT_ECHO_ON :: int
  SUDO_CONV_ERROR_MSG :: int
  SUDO_CONV_INFO_MSG :: int
  SUDO_CONV_PROMPT_MASK :: int

definition valid_consts :: "conv_consts \<Rightarrow> bool" where
  "valid_consts K =
     distinct [SUDO_CONV_PROMPT_ECHO_ON K, SUDO_CONV_PROMPT_MASK K, SUDO_CONV_PROMPT_ECHO_OFF K,
               SUDO_CONV_ERROR_MSG K, SUDO_CONV_INFO_MSG K]"

definition sudo_plugin_h :: conv_consts where
  "sudo_plugin_h =
     \<lparr>SUDO_CONV_PROMPT_ECHO_OFF = 1, SUDO_CONV_PROMPT_ECHO_ON = 2, SUDO_CONV_ERROR_MSG = 3,
      SUDO_CONV_INFO_MSG = 4, SUDO_CONV_PROMPT_MASK = 5\<rparr>"

text \<open>
  Modelled from the spec: \<^verbatim>\<open>struct sudo_conv_message\<close> is declared in the plugin API
  header, not in the sources; the specification describes it as a record of a type and a
  message, the two members the harness reads. \<open>msg_type\<close> is a C \<^verbatim>\<open>int\<close>; the only
  operation on it is \<^verbatim>\<open>& 0xff\<close>, which on a two's complement \<^verbatim>\<open>int\<close> is \<open>AND\<close> on the
  integer it denotes. \<open>msg\<close> is a C string or null.
\<close>

record sudo_conv_message =
  msg_type :: int
  msg :: "string option"

text \<open>
  Standard output and standard error are the bytes written to each so far. The device
  decides how many of the bytes of the \<open>k\<close>-th write request it takes.
\<close>

datatype stream = Stdout | Stderr

record stdio =
  out :: string
  err :: string
  writes :: nat

type_synonym device = "nat \<Rightarrow> nat \<Rightarrow> nat"

definition emit :: "stream \<Rightarrow> string \<Rightarrow> stdio \<Rightarrow> stdio" where
  "emit fp s io = (case fp of Stdout \<Rightarrow> io\<lparr>out := out io @ s\<rparr> | Stderr \<Rightarrow> io\<lparr>err := err io @ s\<rparr>)"

text \<open>\<^verbatim>\<open>fwrite(s, 1, len, fp)\<close>: the number of bytes written.\<close>

definition fwrite :: "device \<Rightarrow> stream \<Rightarrow> string \<Rightarrow> stdio \<Rightarrow> nat \<times> stdio" where
  "fwrite dev fp s io =
     (let n = min (length s) (dev (writes io) (length s))
      in (n, (emit fp (take n s) io)\<lparr>writes := Suc (writes io)\<rparr>))"

text \<open>\<^verbatim>\<open>fputc(c, fp)\<close>: \<open>False\<close> stands for \<^verbatim>\<open>EOF\<close>.\<close>

definition fputc :: "device \<Rightarrow> stream \<Rightarrow> char \<Rightarrow> stdio \<Rightarrow> bool \<times> stdio" where
  "fputc dev fp c io =
     (if dev (writes io) 1 \<ge> 1 then (True, (emit fp [c] io)\<lparr>writes := Suc (writes io)\<rparr>)
      else (False, io\<lparr>writes := Suc (writes io)\<rparr>))"

text \<open>
  The body of the \<^verbatim>\<open>for\<close> loop of \<open>fuzz_conversation\<close> for one message: \<open>Some r\<close> is
  \<^verbatim>\<open>return r\<close>, \<open>None\<close> is \<^verbatim>\<open>break\<close> out of the \<^verbatim>\<open>switch\<close>, on to the next message.
\<close>

definition conv_message :: "conv_consts \<Rightarrow> device \<Rightarrow> sudo_conv_message \<Rightarrow> stdio \<Rightarrow> int option \<times> stdio" where
  "conv_message K dev m io =
     (let t = msg_type m AND 0xff
      in if t = SUDO_CONV_PROMPT_ECHO_ON K \<or> t = SUDO_CONV_PROMPT_MASK K
            \<or> t = SUDO_CONV_PROMPT_ECHO_OFF K
         then (Some (- 1), io)
         else if t = SUDO_CONV_ERROR_MSG K \<or> t = SUDO_CONV_INFO_MSG K
         then (let fp = (if t = SUDO_CONV_ERROR_MSG K then Stderr else Stdout)
               in case msg m of
                    None \<Rightarrow> (None, io)
                  | Some s \<Rightarrow>
                      if length s = 0 then (None, io)
                      else (case fwrite dev fp s io of
                              (n, io1) \<Rightarrow>
                                if n = 0 then (Some (- 1), io1)
                                else (case fputc dev fp newline io1 of
                                        (False, io2) \<Rightarrow> (Some (- 1), io2)
                                      | (True, io2) \<Rightarrow> (None, io2))))
         else (Some (- 1), io))"

text \<open>
  \<^verbatim>\<open>for (n = 0; n < num_msgs; n++)\<close>. Reading \<open>msgs[n]\<close> beyond the array that the
  caller passed is undefined behaviour.
\<close>

function conv_loop :: "conv_consts \<Rightarrow> device \<Rightarrow> int \<Rightarrow> sudo_conv_message list \<Rightarrow> int \<Rightarrow> stdio \<Rightarrow> (int \<times> stdio) option" where
  "conv_loop K dev num_msgs msgs n io =
     (if n < num_msgs
      then (if n < 0 \<or> nat n \<ge> length msgs then None
            else (case conv_message K dev (msgs ! nat n) io of
                    (Some r, io') \<Rightarrow> Some (r, io')
                  | (None, io') \<Rightarrow> conv_loop K dev num_msgs msgs (n + 1) io'))
      else Some (0, io))"
  by pat_completeness auto
termination
  by (relation "measure (\<lambda>(K, dev, num_msgs, msgs, n, io). nat (num_msgs - n))") auto

declare conv_loop.simps [simp del]

definition fuzz_conversation :: "conv_consts \<Rightarrow> device \<Rightarrow> int \<Rightarrow> sudo_conv_message list \<Rightarrow> stdio \<Rightarrow> (int \<times> stdio) option" where
  "fuzz_conversation K dev num_msgs msgs io = conv_loop K dev num_msgs msgs 0 io"

text \<open>
  \<open>fuzz_printf\<close>. The C library's \<^verbatim>\<open>vfprintf\<close> is a parameter: from the stream, the
  format and the arguments it gives the returned length and the new state of the streams.
  The third component of the result is the value the function itself assigns to
  \<^verbatim>\<open>errno\<close>, if any.
\<close>

datatype errno = EINVAL

definition fuzz_printf ::
  "conv_consts \<Rightarrow> (stream \<Rightarrow> string \<Rightarrow> 'ap \<Rightarrow> stdio \<Rightarrow> int \<times> stdio) \<Rightarrow> int \<Rightarrow> string \<Rightarrow> 'ap \<Rightarrow> stdio
     \<Rightarrow> int \<times> stdio \<times> errno option" where
  "fuzz_printf K vfprintf mtype fmt ap io =
     (let t = mtype AND 0xff
      in if t = SUDO_CONV_ERROR_MSG K \<or> t = SUDO_CONV_INFO_MSG K
         then (let fp = (if t = SUDO_CONV_ERROR_MSG K then Stderr else Stdout)
               in case vfprintf fp fmt ap io of (n, io') \<Rightarrow> (n, io', None))
         else (- 1, io, Some EINVAL))"

section \<open>Well-formed arrays\<close>

text \<open>
  An array is terminated when its buffer has \<open>asize\<close> slots and a reader of the vector
  finds exactly \<open>len\<close> strings and then the null pointer. \<open>contents\<close> is what that
  reader sees. A well-formed array is a fresh one or a terminated one.
\<close>

definition terminated :: "dynamic_array \<Rightarrow> bool" where
  "terminated arr =
     (case entries arr of
        None \<Rightarrow> False
      | Some buf \<Rightarrow>
          length buf = asize arr \<and>
          (case strvec buf of None \<Rightarrow> False | Some ss \<Rightarrow> length ss = len arr))"

definition contents :: "dynamic_array \<Rightarrow> string list" where
  "contents arr =
     (case entries arr of
        None \<Rightarrow> []
      | Some buf \<Rightarrow> (case strvec buf of None \<Rightarrow> [] | Some ss \<Rightarrow> ss))"

definition wf_array :: "dynamic_array \<Rightarrow> bool" where
  "wf_array arr = (arr = empty_array \<or> terminated arr)"

definition entry_list :: "string option \<Rightarrow> string list" where
  "entry_list e = (case e of None \<Rightarrow> [] | Some s \<Rightarrow> [s])"


text \<open>A sequence of pushes on one array, with the boolean each of them returned.\<close>

fun push_all :: "allocator \<Rightarrow> nat \<Rightarrow> dynamic_array \<Rightarrow> string option list \<Rightarrow> (bool list \<times> dynamic_array \<times> nat) option" where
  "push_all ok k arr [] = Some ([], arr, k)"
| "push_all ok k arr (e # es) =
     (case push ok k arr e of
        None \<Rightarrow> None
      | Some (r, arr1, k1) \<Rightarrow>
          (case push_all ok k1 arr1 es of
             None \<Rightarrow> None
           | Some (rs, arr2, k2) \<Rightarrow> Some (r # rs, arr2, k2)))"


section \<open>Vocabulary for the callbacks\<close>

text \<open>
  The message type is the low byte of \<open>msg_type\<close>. \<open>rendered\<close> is what the conversation
  callback writes for one informational or error message. A reliable device takes every
  byte it is offered. Two messages have the same low byte when their types agree modulo 256
  and their texts are equal.
\<close>

definition requests_input :: "conv_consts \<Rightarrow> sudo_conv_message \<Rightarrow> bool" where
  "requests_input K m =
     (msg_type m AND 0xff = SUDO_CONV_PROMPT_ECHO_ON K \<or> msg_type m AND 0xff = SUDO_CONV_PROMPT_MASK K
      \<or> msg_type m AND 0xff = SUDO_CONV_PROMPT_ECHO_OFF K)"

definition is_info :: "conv_consts \<Rightarrow> sudo_conv_message \<Rightarrow> bool" where
  "is_info K m = (msg_type m AND 0xff = SUDO_CONV_INFO_MSG K)"

definition is_error :: "conv_consts \<Rightarrow> sudo_conv_message \<Rightarrow> bool" where
  "is_error K m = (msg_type m AND 0xff = SUDO_CONV_ERROR_MSG K)"

definition rendered :: "sudo_conv_message \<Rightarrow> string" where
  "rendered m = (case msg m of None \<Rightarrow> [] | Some s \<Rightarrow> if s = [] then [] else s @ [newline])"

definition reliable :: "device \<Rightarrow> bool" where
  "reliable dev = (\<forall>k n. n \<le> dev k n)"

definition same_low_byte :: "sudo_conv_message \<Rightarrow> sudo_conv_message \<Rightarrow> bool" where
  "same_low_byte m m' = (msg_type m mod 256 = msg_type m' mod 256 \<and> msg m = msg m')"

text \<open>
  A text message is an informational or an error message. \<open>written K ms\<close> are the
  messages of \<open>ms\<close> before the first one that is not a text message.
\<close>

definition is_text :: "conv_consts \<Rightarrow> sudo_conv_message \<Rightarrow> bool" where
  "is_text K m = (is_info K m \<or> is_error K m)"

definition written :: "conv_consts \<Rightarrow> sudo_conv_message list \<Rightarrow> sudo_conv_message list" where
  "written K ms = takeWhile (is_text K) ms"



section \<open>Vocabulary for the harness\<close>

text \<open>
  \<open>records\<close> lists what the successive calls of \<^verbatim>\<open>getdelim\<close> return on a stream, and
  \<open>classify_all\<close> runs the loop body over such a list, so that the loop of the harness is
  \<open>classify_all\<close> on \<open>records\<close>. \<open>line_of\<close> is the C string the body sees for a record,
  \<open>discarded\<close> the test for comments and blank lines, and \<open>lines_for t data\<close> the lines
  of the input that the classifier sends to the array \<open>t\<close>, in order. \<open>grows\<close> relates the
  arrays before and after some records were processed: each array holds what it held plus a
  subsequence of its lines, all of them when no allocation failed. \<open>build\<close> is the harness
  up to the call of the plugin. \<open>plugin_calls\<close> and \<open>close_calls\<close> select events from a
  trace, \<open>close_call\<close> is the call of \<open>close\<close> if the plugin has one, and \<open>vec_holds v ss\<close>
  says that the vector \<open>v\<close> is null and \<open>ss\<close> empty, or that a reader of \<open>v\<close> finds \<open>ss\<close>.
\<close>

definition wf_collections :: "collections \<Rightarrow> bool" where
  "wf_collections c =
     (wf_array (plugin_args c) \<and> wf_array (settings c) \<and> wf_array (user_info c) \<and>
      wf_array (argv c) \<and> wf_array (env_add c))"

function records :: "string \<Rightarrow> string list" where
  "records fp =
     (case getdelim newline fp of
        None \<Rightarrow> []
      | Some (raw, rest) \<Rightarrow> raw # records rest)"
  by pat_completeness auto

termination
proof -
  have shorter: "length r < length s" if "getdelim d s = Some (l, r)" for d s l r
    using that by (induction s arbitrary: l r) (auto split: if_splits option.splits)
  show ?thesis
    by (relation "measure length") (auto dest: shorter)
qed

declare records.simps [simp del]

definition line_of :: "string \<Rightarrow> string" where
  "line_of raw = c_string (strip_newline raw)"

definition discarded :: "string \<Rightarrow> bool" where
  "discarded line = (first_char line = CHR ''#'' \<or> first_char line = NUL)"

definition lines_of :: "target \<Rightarrow> string list \<Rightarrow> string list" where
  "lines_of t raws = filter (\<lambda>l. \<not> discarded l \<and> classify l = t) (map line_of raws)"

definition lines_for :: "target \<Rightarrow> string \<Rightarrow> string list" where
  "lines_for t data = lines_of t (records data)"

fun classify_all :: "allocator \<Rightarrow> collections \<Rightarrow> string list \<Rightarrow> collections option" where
  "classify_all ok c [] = Some c"
| "classify_all ok c (raw # raws) =
     (case process_line ok c raw of
        None \<Rightarrow> None
      | Some c' \<Rightarrow> classify_all ok c' raws)"

definition grows :: "allocator \<Rightarrow> string list \<Rightarrow> collections \<Rightarrow> collections \<Rightarrow> bool" where
  "grows ok raws c c' =
     (wf_collections c' \<and> allocs c \<le> allocs c' \<and>
      (\<forall>t. (terminated (get_array t c) \<longrightarrow> terminated (get_array t c')) \<and>
           (\<exists>xs. contents (get_array t c') = contents (get_array t c) @ xs \<and>
                 subseq xs (lines_of t raws) \<and>
                 ((\<forall>j. allocs c \<le> j \<and> j < allocs c' \<longrightarrow> ok j) \<longrightarrow> xs = lines_of t raws))))"

definition build :: "allocator \<Rightarrow> string \<Rightarrow> collections option" where
  "build ok data =
     (case push_into ok User_info init_collections None of
        None \<Rightarrow> None
      | Some c1 \<Rightarrow>
          (case push_into ok Settings c1 None of
             None \<Rightarrow> None
           | Some c2 \<Rightarrow> read_loop ok c2 data))"

fun is_plugin_call :: "event \<Rightarrow> bool" where
  "is_plugin_call (Policy_open s u p r) = True"
| "is_plugin_call (Policy_check n a e) = True"
| "is_plugin_call (Policy_close x y) = True"
| "is_plugin_call (Free_string s) = False"
| "is_plugin_call Free_buffer = False"


definition close_call :: "policy_plugin \<Rightarrow> event list" where
  "close_call plugin = (if has_close plugin then [Policy_close 0 0] else [])"

definition vec_holds :: "slot list option \<Rightarrow> string list \<Rightarrow> bool" where
  "vec_holds v ss = (case v of None \<Rightarrow> ss = [] | Some buf \<Rightarrow> strvec buf = Some ss)"

fun is_close :: "event \<Rightarrow> bool" where
  "is_close (Policy_close x y) = True"
| "is_close ev = False"

definition close_calls :: "event list \<Rightarrow> event list" where
  "close_calls tr = filter is_close tr"

text \<open>
  The table of recognised keys as the specification lists it, and classification by the first
  key of the table that is a prefix of the line.
\<close>

definition prefix_table :: "(string \<times> target) list" where
  "prefix_table =
     [(''error_recovery='', Plugin_args), (''sudoers_file='', Plugin_args),
      (''sudoers_mode='', Plugin_args), (''sudoers_gid='', Plugin_args),
      (''sudoers_uid='', Plugin_args), (''ldap_conf='', Plugin_args),
      (''ldap_secret='', Plugin_args),
      (''user='', User_info), (''uid='', User_info), (''gid='', User_info),
      (''groups='', User_info), (''cwd='', User_info), (''tty='', User_info),
      (''host='', User_info), (''lines='', User_info), (''cols='', User_info),
      (''sid='', User_info), (''umask='', User_info), (''rlimit_'', User_info),
      (''argv='', Argv), (''env='', Env_add)]"

definition classify_by_table :: "string \<Rightarrow> target" where
  "classify_by_table line =
     (case find (\<lambda>(key, t). prefix key line) prefix_table of
        None \<Rightarrow> Settings
      | Some (key, t) \<Rightarrow> t)"

text \<open>The lines that the specification gives as an example, one record each.\<close>

definition example_input :: string where
  "example_input =
     ''user=alice'' @ [newline] @ ''uid=1000'' @ [newline] @ ''argv=/bin/ls'' @ [newline] @
     ''foo=bar'' @ [newline] @ ''# comment'' @ [newline] @ [newline]"

section \<open>The builder on lists\<close>

text \<open>
  The same builder without buffers: an array is the list of strings it holds and its
  capacity. \<open>abs_push\<close> follows the description of \<open>push\<close>: duplicating the entry is the
  first allocation request, growing by 128 slots when the entry and the terminator do not
  fit is the next, and a refused request makes the push fail and leaves the array as it
  was. \<open>abs_build\<close> pushes the two null entries and then every line that is not
  discarded, into the array its key names, whether or not earlier pushes failed.
  \<open>pushed ok data t\<close> are the lines that end up in the array \<open>t\<close>: the lines classified
  for \<open>t\<close> whose push succeeded, in the order of the input.
\<close>

type_synonym abs_array = "string list \<times> nat"

definition abs_push :: "allocator \<Rightarrow> nat \<Rightarrow> abs_array \<Rightarrow> string option \<Rightarrow> bool \<times> abs_array \<times> nat" where
  "abs_push ok k a e =
     (case e of
        None \<Rightarrow>
          (if length (fst a) \<ge> snd a
           then (if ok k then (True, (fst a, snd a + 128), Suc k) else (False, a, Suc k))
           else (True, a, k))
      | Some s \<Rightarrow>
          (if \<not> ok k then (False, a, Suc k)
           else if length (fst a) + 1 \<ge> snd a
           then (if ok (Suc k) then (True, (fst a @ [s], snd a + 128), Suc (Suc k))
                 else (False, a, Suc (Suc k)))
           else (True, (fst a @ [s], snd a), Suc k)))"

definition abs_array_of :: "dynamic_array \<Rightarrow> abs_array" where
  "abs_array_of arr = (contents arr, asize arr)"

type_synonym abs_collections = "(target \<Rightarrow> abs_array) \<times> nat"

definition abs_of :: "collections \<Rightarrow> abs_collections" where
  "abs_of c = (\<lambda>t. abs_array_of (get_array t c), allocs c)"

definition abs_push_into :: "allocator \<Rightarrow> target \<Rightarrow> abs_collections \<Rightarrow> string option \<Rightarrow> abs_collections" where
  "abs_push_into ok t S e =
     (case abs_push ok (snd S) (fst S t) e of (r, a, k) \<Rightarrow> ((fst S)(t := a), k))"

fun abs_classify_all :: "allocator \<Rightarrow> abs_collections \<Rightarrow> string list \<Rightarrow> abs_collections" where
  "abs_classify_all ok S [] = S"
| "abs_classify_all ok S (raw # raws) =
     abs_classify_all ok
       (if discarded (line_of raw) then S
        else abs_push_into ok (classify (line_of raw)) S (Some (line_of raw)))
       raws"

definition abs_build :: "allocator \<Rightarrow> string \<Rightarrow> abs_collections" where
  "abs_build ok data =
     abs_classify_all ok
       (abs_push_into ok Settings (abs_push_into ok User_info (\<lambda>t. ([], 0), 0) None) None)
       (records data)"

definition pushed :: "allocator \<Rightarrow> string \<Rightarrow> target \<Rightarrow> string list" where
  "pushed ok data t = fst (fst (abs_build ok data) t)"

text \<open>Two lines for the same array; the second has no newline after it.\<close>

definition two_users :: string where
  "two_users = ''user=alice'' @ [newline] @ ''uid=1000''"

section \<open>Properties of push\<close>

lemma strvec_layout [simp]: "strvec (map Ptr ss @ NullPtr # rest) = Some ss"
  by (induction ss) simp_all

lemma strvec_SomeD: "strvec buf = Some ss \<Longrightarrow> \<exists>rest. buf = map Ptr ss @ NullPtr # rest"
proof (induction buf arbitrary: ss)
  case Nil
  then show ?case by simp
next
  case (Cons x buf)
  show ?case
  proof (cases x)
    case Garbage
    with Cons.prems show ?thesis by simp
  next
    case NullPtr
    with Cons.prems show ?thesis by simp
  next
    case (Ptr s)
    with Cons.prems obtain ss' where a: "strvec buf = Some ss'" and b: "ss = s # ss'"
      by (auto split: option.splits)
    from Cons.IH [OF a] obtain rest where "buf = map Ptr ss' @ NullPtr # rest" ..
    with Ptr b show ?thesis by simp
  qed
qed

lemma terminated_iff:
  "terminated arr \<longleftrightarrow>
     (\<exists>ss rest. entries arr = Some (map Ptr ss @ NullPtr # rest) \<and> len arr = length ss
        \<and> asize arr = length ss + 1 + length rest)"
proof
  assume "terminated arr"
  then obtain buf ss where e: "entries arr = Some buf" and l: "length buf = asize arr"
    and s: "strvec buf = Some ss" and n: "length ss = len arr"
    by (auto simp: terminated_def split: option.splits)
  from strvec_SomeD [OF s] obtain rest where "buf = map Ptr ss @ NullPtr # rest" ..
  with e l n show "\<exists>ss rest. entries arr = Some (map Ptr ss @ NullPtr # rest) \<and> len arr = length ss
        \<and> asize arr = length ss + 1 + length rest"
    by (intro exI [where x = ss] exI [where x = rest]) simp
next
  assume "\<exists>ss rest. entries arr = Some (map Ptr ss @ NullPtr # rest) \<and> len arr = length ss
        \<and> asize arr = length ss + 1 + length rest"
  then show "terminated arr"
    by (auto simp: terminated_def)
qed

lemma update_at_length: "(xs @ y # ys)[length xs := z] = xs @ z # ys"
  by (simp add: list_update_append)

lemma update_at_map_length: "(map f xs @ y # ys)[length xs := z] = map f xs @ z # ys"
  using update_at_length [of "map f xs" y ys z] by simp

lemma update_after_map_length: "(map f xs @ y # y' # ys)[Suc (length xs) := z] = map f xs @ y # z # ys"
  using update_at_length [of "map f xs @ [y]" y' ys z] by simp

lemma push_null_terminated:
  assumes "entries arr = Some (map Ptr ss @ NullPtr # rest)" "len arr = length ss"
    "asize arr = length ss + 1 + length rest"
  shows "push ok k arr None = Some (True, arr, k)"
  using assms
  by (cases arr) (simp add: push_def push_copy_def push_grow_def push_store_def store_def update_at_map_length)

lemma push_null_empty:
  "push ok k empty_array None =
     (if ok k then Some (True, \<lparr>entries = Some (NullPtr # replicate 127 Garbage), len = 0, asize = 128\<rparr>, Suc k)
      else Some (False, empty_array, Suc k))"
  by (simp add: push_def push_copy_def push_grow_def push_store_def store_def empty_array_def reallocarray_def
     numeral_eq_Suc)

lemma push_str_empty:
  "push ok k empty_array (Some s) =
     (if ok k \<and> ok (Suc k) then Some (True, \<lparr>entries = Some (Ptr s # NullPtr # replicate 126 Garbage), len = 1, asize = 128\<rparr>, Suc (Suc k))
      else Some (False, empty_array, if ok k then Suc (Suc k) else Suc k))"
  by (simp add: push_def push_copy_def strdup_def push_grow_def push_store_def store_def empty_array_def reallocarray_def
     numeral_eq_Suc)

lemma push_str_room:
  assumes "entries arr = Some (map Ptr ss @ NullPtr # r # rest)" "len arr = length ss"
    "asize arr = length ss + 2 + length rest"
  shows "push ok k arr (Some s) =
     (if ok k then Some (True, arr\<lparr>entries := Some (map Ptr (ss @ [s]) @ NullPtr # rest), len := length ss + 1\<rparr>, Suc k)
      else Some (False, arr, Suc k))"
  using assms
  by (simp add: push_def push_copy_def strdup_def push_grow_def push_store_def store_def
      update_at_map_length update_after_map_length)

lemma push_str_full:
  assumes "entries arr = Some (map Ptr ss @ [NullPtr])" "len arr = length ss"
    "asize arr = length ss + 1"
  shows "push ok k arr (Some s) =
     (if ok k \<and> ok (Suc k) then Some (True, arr\<lparr>entries := Some (map Ptr (ss @ [s]) @ NullPtr # replicate 127 Garbage), len := length ss + 1, asize := length ss + 129\<rparr>, Suc (Suc k))
      else Some (False, arr, if ok k then Suc (Suc k) else Suc k))"
  using assms
  by (simp add: push_def push_copy_def strdup_def push_grow_def push_store_def store_def reallocarray_def
      update_at_map_length update_after_map_length numeral_eq_Suc)


lemma contents_layout:
  "entries arr = Some (map Ptr ss @ NullPtr # rest) \<Longrightarrow> contents arr = ss"
  by (simp add: contents_def)

lemma contents_empty [simp]: "contents empty_array = []"
  by (simp add: contents_def empty_array_def)

lemma terminatedI:
  "entries arr = Some (map Ptr ss @ NullPtr # rest) \<Longrightarrow> len arr = length ss \<Longrightarrow>
   asize arr = length ss + 1 + length rest \<Longrightarrow> terminated arr"
  by (auto simp: terminated_iff)

lemma terminated_null_start:
  "terminated \<lparr>entries = Some (NullPtr # replicate 127 Garbage), len = 0, asize = 128\<rparr>"
  by (rule terminatedI [where ss = "[]" and rest = "replicate 127 Garbage"]) simp_all

lemma terminated_str_start:
  "terminated \<lparr>entries = Some (Ptr s # NullPtr # replicate 126 Garbage), len = 1, asize = 128\<rparr>"
  by (rule terminatedI [where ss = "[s]" and rest = "replicate 126 Garbage"]) simp_all

lemma push_wf:
  assumes "wf_array arr"
  obtains r arr' k' where "push ok k arr e = Some (r, arr', k')" "k \<le> k'"
    "r \<Longrightarrow> terminated arr' \<and> contents arr' = contents arr @ entry_list e"
    "\<not> r \<Longrightarrow> arr' = arr \<and> (\<exists>j. k \<le> j \<and> j < k' \<and> \<not> ok j)"
proof (cases "arr = empty_array")
  case True
  show ?thesis
  proof (cases e)
    case None
    show ?thesis
    proof (cases "ok k")
      case ok: True
      show ?thesis
      proof (rule that)
        show "push ok k arr e = Some (True, \<lparr>entries = Some (NullPtr # replicate 127 Garbage), len = 0, asize = 128\<rparr>, Suc k)"
          using True None ok by (simp add: push_null_empty)
        show "terminated \<lparr>entries = Some (NullPtr # replicate 127 Garbage), len = 0, asize = 128\<rparr> \<and>
          contents \<lparr>entries = Some (NullPtr # replicate 127 Garbage), len = 0, asize = 128\<rparr> = contents arr @ entry_list e"
          using True None by (simp add: terminated_null_start contents_def entry_list_def empty_array_def)
      qed simp_all
    next
      case nok: False
      show ?thesis
      proof (rule that)
        show "push ok k arr e = Some (False, arr, Suc k)"
          using True None nok by (simp add: push_null_empty)
        show "arr = arr \<and> (\<exists>j. k \<le> j \<and> j < Suc k \<and> \<not> ok j)"
          using nok by auto
      qed simp_all
    qed
  next
    case (Some s)
    show ?thesis
    proof (cases "ok k \<and> ok (Suc k)")
      case ok: True
      show ?thesis
      proof (rule that)
        show "push ok k arr e = Some (True, \<lparr>entries = Some (Ptr s # NullPtr # replicate 126 Garbage), len = 1, asize = 128\<rparr>, Suc (Suc k))"
          using True Some ok by (simp add: push_str_empty)
        show "terminated \<lparr>entries = Some (Ptr s # NullPtr # replicate 126 Garbage), len = 1, asize = 128\<rparr> \<and>
          contents \<lparr>entries = Some (Ptr s # NullPtr # replicate 126 Garbage), len = 1, asize = 128\<rparr> = contents arr @ entry_list e"
          using True Some terminated_str_start [of s] by (simp add: contents_def entry_list_def empty_array_def)
      qed simp_all
    next
      case nok: False
      show ?thesis
      proof (rule that)
        show "push ok k arr e = Some (False, arr, if ok k then Suc (Suc k) else Suc k)"
          using True Some nok by (simp add: push_str_empty)
        show "arr = arr \<and> (\<exists>j. k \<le> j \<and> j < (if ok k then Suc (Suc k) else Suc k) \<and> \<not> ok j)"
          using nok by (cases "ok k") (auto intro: exI [where x = "Suc k"])
      qed simp_all
    qed
  qed
next
  case False
  with assms have tm: "terminated arr" by (simp add: wf_array_def)
  then obtain ss rest where lay: "entries arr = Some (map Ptr ss @ NullPtr # rest)"
    "len arr = length ss" "asize arr = length ss + 1 + length rest"
    unfolding terminated_iff by blast
  have c: "contents arr = ss" using lay(1) by (rule contents_layout)
  show ?thesis
  proof (cases e)
    case None
    show ?thesis
    proof (rule that)
      show "push ok k arr e = Some (True, arr, k)"
        using push_null_terminated [OF lay] None by simp
      show "terminated arr \<and> contents arr = contents arr @ entry_list e"
        using tm None by (simp add: entry_list_def)
    qed simp_all
  next
    case (Some s)
    show ?thesis
    proof (cases rest)
      case Nil
      let ?arr' = "arr\<lparr>entries := Some (map Ptr (ss @ [s]) @ NullPtr # replicate 127 Garbage),
                     len := length ss + 1, asize := length ss + 129\<rparr>"
      have t: "terminated ?arr'"
        by (rule terminatedI [where ss = "ss @ [s]" and rest = "replicate 127 Garbage"]) simp_all
      have c': "contents ?arr' = ss @ [s]"
        by (rule contents_layout [where rest = "replicate 127 Garbage"]) simp
      from lay Nil have p: "push ok k arr (Some s) =
          (if ok k \<and> ok (Suc k) then Some (True, ?arr', Suc (Suc k))
           else Some (False, arr, if ok k then Suc (Suc k) else Suc k))"
        by (intro push_str_full) simp_all
      show ?thesis
      proof (cases "ok k \<and> ok (Suc k)")
        case True
        show ?thesis
        proof (rule that)
          show "push ok k arr e = Some (True, ?arr', Suc (Suc k))"
            using p Some True by simp
          show "terminated ?arr' \<and> contents ?arr' = contents arr @ entry_list e"
            using t c c' Some by (simp add: entry_list_def)
        qed simp_all
      next
        case False
        show ?thesis
        proof (rule that)
          show "push ok k arr e = Some (False, arr, if ok k then Suc (Suc k) else Suc k)"
            using p Some False by simp
          show "arr = arr \<and> (\<exists>j. k \<le> j \<and> j < (if ok k then Suc (Suc k) else Suc k) \<and> \<not> ok j)"
            using False by (cases "ok k") (auto intro: exI [where x = "Suc k"])
        qed simp_all
      qed
    next
      case (Cons r rest')
      let ?arr' = "arr\<lparr>entries := Some (map Ptr (ss @ [s]) @ NullPtr # rest'), len := length ss + 1\<rparr>"
      have t: "terminated ?arr'"
        using lay(3) Cons by (intro terminatedI [where ss = "ss @ [s]" and rest = rest']) simp_all
      have c': "contents ?arr' = ss @ [s]"
        by (rule contents_layout [where rest = rest']) simp
      from lay Cons have p: "push ok k arr (Some s) =
          (if ok k then Some (True, ?arr', Suc k) else Some (False, arr, Suc k))"
        by (intro push_str_room) simp_all
      show ?thesis
      proof (cases "ok k")
        case True
        show ?thesis
        proof (rule that)
          show "push ok k arr e = Some (True, ?arr', Suc k)"
            using p Some True by simp
          show "terminated ?arr' \<and> contents ?arr' = contents arr @ entry_list e"
            using t c c' Some by (simp add: entry_list_def)
        qed simp_all
      next
        case False
        show ?thesis
        proof (rule that)
          show "push ok k arr e = Some (False, arr, Suc k)"
            using p Some False by simp
          show "arr = arr \<and> (\<exists>j. k \<le> j \<and> j < Suc k \<and> \<not> ok j)"
            using False by auto
        qed simp_all
      qed
    qed
  qed
qed

lemma terminated_slots:
  assumes "terminated arr"
  shows "\<exists>buf. entries arr = Some buf \<and> length buf = asize arr \<and> len arr < asize arr \<and>
           length (contents arr) = len arr \<and>
           take (len arr) buf = map Ptr (contents arr) \<and> buf ! len arr = NullPtr"
proof -
  from assms obtain ss rest where lay: "entries arr = Some (map Ptr ss @ NullPtr # rest)"
    "len arr = length ss" "asize arr = length ss + 1 + length rest"
    unfolding terminated_iff by blast
  have c: "contents arr = ss" using lay(1) by (rule contents_layout)
  have "(map Ptr ss @ NullPtr # rest) ! length ss = NullPtr"
    using nth_append_length [of "map Ptr ss" NullPtr rest] by simp
  with lay c show ?thesis by simp
qed

lemma wf_push:
  assumes "wf_array arr" "push ok k arr e = Some (r, arr', k')"
  shows "wf_array arr'" "r \<Longrightarrow> terminated arr'"
    "r \<Longrightarrow> contents arr' = contents arr @ entry_list e" "\<not> r \<Longrightarrow> arr' = arr"
proof -
  from assms(1) obtain r0 arr0 k0 where p: "push ok k arr e = Some (r0, arr0, k0)"
    and t: "r0 \<Longrightarrow> terminated arr0 \<and> contents arr0 = contents arr @ entry_list e"
    and f: "\<not> r0 \<Longrightarrow> arr0 = arr \<and> (\<exists>j. k \<le> j \<and> j < k0 \<and> \<not> ok j)"
    by (rule push_wf [where ok = ok and k = k and e = e]) blast
  from p assms(2) have eq: "r0 = r" "arr0 = arr'" by simp_all
  show "r \<Longrightarrow> terminated arr'" using t eq by simp
  show "r \<Longrightarrow> contents arr' = contents arr @ entry_list e" using t eq by simp
  show "\<not> r \<Longrightarrow> arr' = arr" using f eq by simp
  show "wf_array arr'" using t f eq assms(1) by (cases r) (auto simp: wf_array_def)
qed

lemma push_total:
  assumes "wf_array arr"
  shows "\<exists>r arr' k'. push ok k arr e = Some (r, arr', k')"
  using assms by (rule push_wf [where ok = ok and k = k and e = e]) blast

lemma push_all_wf:
  assumes "wf_array arr" "push_all ok k arr es = Some (rs, arr', k')"
  shows "wf_array arr' \<and> ((\<forall>b \<in> set rs. b) \<longrightarrow>
           contents arr' = contents arr @ concat (map entry_list es) \<and>
           (es \<noteq> [] \<longrightarrow> terminated arr'))"
  using assms
proof (induction es arbitrary: k arr rs)
  case Nil
  then show ?case by simp
next
  case (Cons e es)
  from Cons.prems(2) obtain r arr1 k1 rs' where
    p: "push ok k arr e = Some (r, arr1, k1)" and
    q: "push_all ok k1 arr1 es = Some (rs', arr', k')" and rs: "rs = r # rs'"
    by (auto split: option.splits)
  note w = wf_push [OF Cons.prems(1) p]
  from Cons.IH [OF w(1) q] have ih: "wf_array arr'"
    "(\<forall>b \<in> set rs'. b) \<Longrightarrow> contents arr' = contents arr1 @ concat (map entry_list es)"
    "(\<forall>b \<in> set rs'. b) \<Longrightarrow> es \<noteq> [] \<Longrightarrow> terminated arr'"
    by simp_all
  show ?case
  proof (intro conjI impI)
    show "wf_array arr'" by (rule ih(1))
  next
    assume a: "\<forall>b \<in> set rs. b"
    with rs have r: r and a': "\<forall>b \<in> set rs'. b" by auto
    show "contents arr' = contents arr @ concat (map entry_list (e # es))"
      using ih(2) [OF a'] w(3) [OF r] by simp
    show "terminated arr'"
    proof (cases es)
      case Nil
      with q have "arr' = arr1" by simp
      with w(2) [OF r] show ?thesis by simp
    next
      case (Cons a list)
      then show ?thesis using ih(3) [OF a'] by simp
    qed
  qed
qed

lemma concat_entry_list_Some: "concat (map entry_list (map Some es)) = es"
  by (induction es) (simp_all add: entry_list_def)

lemma wf_empty_array: "wf_array empty_array"
  by (simp add: wf_array_def)

lemma push_all_example:
  "push_all (\<lambda>_. True) 0 empty_array (map Some [''a'', ''b'']) =
     Some ([True, True],
           \<lparr>entries = Some (Ptr ''a'' # Ptr ''b'' # NullPtr # replicate 125 Garbage), len = 2, asize = 128\<rparr>, 3)"
proof -
  have 1: "push (\<lambda>_. True) 0 empty_array (Some ''a'') =
      Some (True, \<lparr>entries = Some (Ptr ''a'' # NullPtr # replicate 126 Garbage), len = 1, asize = 128\<rparr>, 2)"
    by (simp add: push_str_empty)
  have 2: "push (\<lambda>_. True) 2 \<lparr>entries = Some (Ptr ''a'' # NullPtr # replicate 126 Garbage), len = 1, asize = 128\<rparr> (Some ''b'') =
      Some (True, \<lparr>entries = Some (Ptr ''a'' # Ptr ''b'' # NullPtr # replicate 125 Garbage), len = 2, asize = 128\<rparr>, 3)"
    using push_str_room [where ss = "[''a'']" and r = Garbage and rest = "replicate 125 Garbage" and s = "''b''"
        and ok = "\<lambda>_. True" and k = 2
        and arr = "\<lparr>entries = Some (Ptr ''a'' # NullPtr # replicate 126 Garbage), len = 1, asize = 128\<rparr>"]
    by (simp add: numeral_eq_Suc)
  show ?thesis using 1 2 by simp
qed


section \<open>Properties of the callbacks\<close>

lemma and_ff_mod: "(a::int) AND 0xff = a mod 256"
proof -
  have "(255::int) = mask 8" by (simp add: mask_eq_exp_minus_1)
  then have "a AND 0xff = take_bit 8 a" by (simp only: take_bit_eq_mask)
  then show ?thesis by (simp add: take_bit_eq_mod)
qed

lemma conv_message_low_byte:
  "same_low_byte m m' \<Longrightarrow> conv_message K dev m io = conv_message K dev m' io"
  by (simp add: conv_message_def same_low_byte_def and_ff_mod Let_def cong: if_cong)

lemma conv_loop_low_byte:
  "list_all2 same_low_byte msgs msgs' \<Longrightarrow>
   conv_loop K dev num_msgs msgs n io = conv_loop K dev num_msgs msgs' n io"
proof (induction K dev num_msgs msgs n io rule: conv_loop.induct)
  case (1 K dev num_msgs msgs n io)
  note len = list_all2_lengthD [OF "1.prems"]
  show ?case
  proof (cases "n < num_msgs \<and> \<not> (n < 0 \<or> nat n \<ge> length msgs)")
    case True
    then have m: "same_low_byte (msgs ! nat n) (msgs' ! nat n)"
      using "1.prems" by (simp add: list_all2_nthD)
    note cm = conv_message_low_byte [OF m, of K dev io]
    show ?thesis
    proof (cases "conv_message K dev (msgs ! nat n) io")
      case (Pair r io')
      show ?thesis
      proof (cases r)
        case None
        with Pair True "1.IH" "1.prems" have
          "conv_loop K dev num_msgs msgs (n + 1) io' = conv_loop K dev num_msgs msgs' (n + 1) io'"
          by simp
        with Pair None True cm len show ?thesis
          by (subst conv_loop.simps, subst (2) conv_loop.simps) simp
      next
        case (Some a)
        with Pair True cm len show ?thesis
          by (subst conv_loop.simps, subst (2) conv_loop.simps) simp
      qed
    qed
  next
    case False
    with len show ?thesis
      by (subst conv_loop.simps, subst (2) conv_loop.simps) auto
  qed
qed

lemma fuzz_printf_low_byte:
  "a mod 256 = b mod 256 \<Longrightarrow> fuzz_printf K vfp a fmt ap io = fuzz_printf K vfp b fmt ap io"
  by (simp add: fuzz_printf_def and_ff_mod)


lemma conv_message_prompt:
  "requests_input K m \<Longrightarrow> conv_message K dev m io = (Some (- 1), io)"
  by (simp add: conv_message_def requests_input_def Let_def)

lemma fwrite_reliable:
  "reliable dev \<Longrightarrow> fwrite dev fp s io = (length s, (emit fp s io)\<lparr>writes := Suc (writes io)\<rparr>)"
  by (simp add: fwrite_def reliable_def min_def)

lemma fputc_reliable:
  "reliable dev \<Longrightarrow> fputc dev fp c io = (True, (emit fp [c] io)\<lparr>writes := Suc (writes io)\<rparr>)"
proof -
  assume "reliable dev"
  then have "1 \<le> dev (writes io) 1" unfolding reliable_def by blast
  then show ?thesis by (simp add: fputc_def)
qed

lemma out_emit: "out ((emit fp s io)\<lparr>writes := w\<rparr>) = out io @ (if fp = Stdout then s else [])"
  by (cases fp) (simp_all add: emit_def)

lemma err_emit: "err ((emit fp s io)\<lparr>writes := w\<rparr>) = err io @ (if fp = Stderr then s else [])"
  by (cases fp) (simp_all add: emit_def)

lemma conv_message_write:
  assumes "reliable dev"
    "\<not> (msg_type m AND 0xff = SUDO_CONV_PROMPT_ECHO_ON K \<or> msg_type m AND 0xff = SUDO_CONV_PROMPT_MASK K
      \<or> msg_type m AND 0xff = SUDO_CONV_PROMPT_ECHO_OFF K)"
    "msg_type m AND 0xff = SUDO_CONV_ERROR_MSG K \<or> msg_type m AND 0xff = SUDO_CONV_INFO_MSG K"
  shows "\<exists>io'. conv_message K dev m io = (None, io') \<and>
           out io' = out io @ (if msg_type m AND 0xff = SUDO_CONV_ERROR_MSG K then [] else rendered m) \<and>
           err io' = err io @ (if msg_type m AND 0xff = SUDO_CONV_ERROR_MSG K then rendered m else [])"
proof (cases "msg m")
  case None
  with assms(2,3) show ?thesis
    by (simp add: conv_message_def Let_def rendered_def)
next
  case (Some s)
  show ?thesis
  proof (cases "s = []")
    case True
    with Some assms(2,3) show ?thesis
      by (simp add: conv_message_def Let_def rendered_def)
  next
    case False
    let ?fp = "if msg_type m AND 0xff = SUDO_CONV_ERROR_MSG K then Stderr else Stdout"
    let ?io1 = "(emit ?fp s io)\<lparr>writes := Suc (writes io)\<rparr>"
    let ?io2 = "(emit ?fp [newline] ?io1)\<lparr>writes := Suc (writes ?io1)\<rparr>"
    have "conv_message K dev m io = (None, ?io2)"
      using False Some assms(2,3)
      by (simp add: conv_message_def Let_def fwrite_reliable [OF assms(1)] fputc_reliable [OF assms(1)])
    moreover have "out ?io2 = out io @ (if msg_type m AND 0xff = SUDO_CONV_ERROR_MSG K then [] else rendered m)"
      using False Some by (simp add: out_emit rendered_def)
    moreover have "err ?io2 = err io @ (if msg_type m AND 0xff = SUDO_CONV_ERROR_MSG K then rendered m else [])"
      using False Some by (simp add: err_emit rendered_def)
    ultimately show ?thesis by blast
  qed
qed

lemma conv_message_text:
  assumes "valid_consts K" "reliable dev" "is_info K m \<or> is_error K m"
  shows "\<exists>io'. conv_message K dev m io = (None, io') \<and>
           out io' = out io @ (if is_info K m then rendered m else []) \<and>
           err io' = err io @ (if is_error K m then rendered m else [])"
proof -
  from assms(1) have dist: "SUDO_CONV_PROMPT_ECHO_ON K \<noteq> SUDO_CONV_ERROR_MSG K"
    "SUDO_CONV_PROMPT_ECHO_ON K \<noteq> SUDO_CONV_INFO_MSG K"
    "SUDO_CONV_PROMPT_MASK K \<noteq> SUDO_CONV_ERROR_MSG K"
    "SUDO_CONV_PROMPT_MASK K \<noteq> SUDO_CONV_INFO_MSG K"
    "SUDO_CONV_PROMPT_ECHO_OFF K \<noteq> SUDO_CONV_ERROR_MSG K"
    "SUDO_CONV_PROMPT_ECHO_OFF K \<noteq> SUDO_CONV_INFO_MSG K"
    "SUDO_CONV_ERROR_MSG K \<noteq> SUDO_CONV_INFO_MSG K"
    by (simp_all add: valid_consts_def)
  from assms(3) have te: "msg_type m AND 0xff = SUDO_CONV_ERROR_MSG K \<or> msg_type m AND 0xff = SUDO_CONV_INFO_MSG K"
    unfolding is_info_def is_error_def by blast
  from te dist have np: "\<not> (msg_type m AND 0xff = SUDO_CONV_PROMPT_ECHO_ON K \<or> msg_type m AND 0xff = SUDO_CONV_PROMPT_MASK K
      \<or> msg_type m AND 0xff = SUDO_CONV_PROMPT_ECHO_OFF K)"
    by metis
  from te dist(7) have x: "is_info K m \<longleftrightarrow> \<not> is_error K m"
    unfolding is_info_def is_error_def by metis
  have w: "\<exists>io'. conv_message K dev m io = (None, io') \<and>
           out io' = out io @ (if is_error K m then [] else rendered m) \<and>
           err io' = err io @ (if is_error K m then rendered m else [])"
    using conv_message_write [OF assms(2) np te, of io] unfolding is_error_def .
  show ?thesis
  proof (cases "is_error K m")
    case True
    with x have "\<not> is_info K m" by simp
    with True w show ?thesis by simp
  next
    case False
    with x have "is_info K m" by simp
    with False w show ?thesis by simp
  qed
qed


lemma conv_message_return:
  "conv_message K dev m io = (Some r, io') \<Longrightarrow> r = - 1"
  unfolding conv_message_def Let_def
  by (simp split: if_splits option.splits prod.splits bool.splits)

lemma conv_loop_prompt:
  assumes "0 \<le> n" "nat num_msgs \<le> length msgs"
    "\<exists>i. nat n \<le> i \<and> i < nat num_msgs \<and> requests_input K (msgs ! i)"
  shows "\<exists>io'. conv_loop K dev num_msgs msgs n io = Some (- 1, io')"
  using assms
proof (induction K dev num_msgs msgs n io rule: conv_loop.induct)
  case (1 K dev num_msgs msgs n io)
  from "1.prems" obtain i where i: "nat n \<le> i" "i < nat num_msgs" "requests_input K (msgs ! i)"
    by blast
  with "1.prems" have lt: "n < num_msgs" and inb: "\<not> (n < 0 \<or> nat n \<ge> length msgs)" by auto
  show ?case
  proof (cases "conv_message K dev (msgs ! nat n) io")
    case (Pair r io')
    show ?thesis
    proof (cases r)
      case None
      with Pair conv_message_prompt [of K "msgs ! nat n" dev io] i(3)
      have "i \<noteq> nat n" by auto
      with i "1.prems"(1) have "\<exists>i. nat (n + 1) \<le> i \<and> i < nat num_msgs \<and> requests_input K (msgs ! i)"
        by (intro exI [where x = i]) auto
      with "1.IH" [OF lt inb Pair [symmetric] None] "1.prems"(1,2)
      have "\<exists>io''. conv_loop K dev num_msgs msgs (n + 1) io' = Some (- 1, io'')" by simp
      with Pair None lt inb show ?thesis
        by (subst conv_loop.simps) simp
    next
      case (Some a)
      with Pair conv_message_return have "a = - 1" by blast
      with Pair Some lt inb show ?thesis
        by (subst conv_loop.simps) simp
    qed
  qed
qed

lemma conv_loop_text:
  assumes "valid_consts K" "reliable dev" "0 \<le> n" "nat num_msgs \<le> length msgs"
    "\<forall>i. nat n \<le> i \<and> i < nat num_msgs \<longrightarrow> is_info K (msgs ! i) \<or> is_error K (msgs ! i)"
  shows "\<exists>io'. conv_loop K dev num_msgs msgs n io = Some (0, io') \<and>
           out io' = out io @ concat (map rendered (filter (is_info K) (drop (nat n) (take (nat num_msgs) msgs)))) \<and>
           err io' = err io @ concat (map rendered (filter (is_error K) (drop (nat n) (take (nat num_msgs) msgs))))"
  using assms
proof (induction K dev num_msgs msgs n io rule: conv_loop.induct)
  case (1 K dev num_msgs msgs n io)
  show ?case
  proof (cases "n < num_msgs")
    case False
    with "1.prems"(3) have "drop (nat n) (take (nat num_msgs) msgs) = []" by simp
    with False show ?thesis
      by (subst conv_loop.simps) simp
  next
    case lt: True
    with "1.prems" have inb: "\<not> (n < 0 \<or> nat n \<ge> length msgs)" by auto
    from lt "1.prems" have ty: "is_info K (msgs ! nat n) \<or> is_error K (msgs ! nat n)" by auto
    from conv_message_text [OF "1.prems"(1,2) ty, of io] obtain io1 where
      cm: "conv_message K dev (msgs ! nat n) io = (None, io1)" and
      o1: "out io1 = out io @ (if is_info K (msgs ! nat n) then rendered (msgs ! nat n) else [])" and
      e1: "err io1 = err io @ (if is_error K (msgs ! nat n) then rendered (msgs ! nat n) else [])"
      by blast
    have rest: "\<forall>i. nat (n + 1) \<le> i \<and> i < nat num_msgs \<longrightarrow> is_info K (msgs ! i) \<or> is_error K (msgs ! i)"
    proof (intro allI impI)
      fix i assume a: "nat (n + 1) \<le> i \<and> i < nat num_msgs"
      then have "nat n \<le> i" by linarith
      with a "1.prems"(5) show "is_info K (msgs ! i) \<or> is_error K (msgs ! i)" by blast
    qed
    from "1.IH" [OF lt inb cm [symmetric] refl "1.prems"(1,2) _ "1.prems"(4) rest] "1.prems"(3)
    obtain io2 where
      l: "conv_loop K dev num_msgs msgs (n + 1) io1 = Some (0, io2)" and
      o2: "out io2 = out io1 @ concat (map rendered (filter (is_info K) (drop (nat (n + 1)) (take (nat num_msgs) msgs))))" and
      e2: "err io2 = err io1 @ concat (map rendered (filter (is_error K) (drop (nat (n + 1)) (take (nat num_msgs) msgs))))"
      by auto
    have "nat n < length (take (nat num_msgs) msgs)" using lt inb "1.prems"(3,4) by simp
    from Cons_nth_drop_Suc [OF this] lt "1.prems"(3)
    have d: "drop (nat n) (take (nat num_msgs) msgs) = msgs ! nat n # drop (nat (n + 1)) (take (nat num_msgs) msgs)"
      by (simp add: nat_add_distrib)
    have "conv_loop K dev num_msgs msgs n io = Some (0, io2)"
      using lt inb cm l by (subst conv_loop.simps) simp
    moreover have "out io2 = out io @ concat (map rendered (filter (is_info K) (drop (nat n) (take (nat num_msgs) msgs))))"
      unfolding d using o1 o2 by simp
    moreover have "err io2 = err io @ concat (map rendered (filter (is_error K) (drop (nat n) (take (nat num_msgs) msgs))))"
      unfolding d using e1 e2 by simp
    ultimately show ?thesis by blast
  qed
qed


lemma conv_message_other:
  "\<not> is_text K m \<Longrightarrow> conv_message K dev m io = (Some (- 1), io)"
  by (simp add: conv_message_def is_text_def is_info_def is_error_def Let_def)

lemma conv_loop_written:
  assumes "valid_consts K" "reliable dev" "0 \<le> n" "nat num_msgs \<le> length msgs"
  shows "\<exists>io'. conv_loop K dev num_msgs msgs n io =
             Some (if list_all (is_text K) (drop (nat n) (take (nat num_msgs) msgs)) then 0 else - 1, io') \<and>
           out io' = out io @ concat (map rendered (filter (is_info K)
                       (written K (drop (nat n) (take (nat num_msgs) msgs))))) \<and>
           err io' = err io @ concat (map rendered (filter (is_error K)
                       (written K (drop (nat n) (take (nat num_msgs) msgs)))))"
  using assms
proof (induction K dev num_msgs msgs n io rule: conv_loop.induct)
  case (1 K dev num_msgs msgs n io)
  show ?case
  proof (cases "n < num_msgs")
    case False
    with "1.prems"(3) have "drop (nat n) (take (nat num_msgs) msgs) = []" by simp
    with False show ?thesis
      by (subst conv_loop.simps) (simp add: written_def)
  next
    case lt: True
    with "1.prems" have inb: "\<not> (n < 0 \<or> nat n \<ge> length msgs)" by auto
    have "nat n < length (take (nat num_msgs) msgs)" using lt inb "1.prems"(3,4) by simp
    from Cons_nth_drop_Suc [OF this] lt "1.prems"(3)
    have d: "drop (nat n) (take (nat num_msgs) msgs) = msgs ! nat n # drop (nat (n + 1)) (take (nat num_msgs) msgs)"
      by (simp add: nat_add_distrib)
    show ?thesis
    proof (cases "is_text K (msgs ! nat n)")
      case False
      from conv_message_other [OF False, of dev io]
      have "conv_loop K dev num_msgs msgs n io = Some (- 1, io)"
        using lt inb by (subst conv_loop.simps) simp
      with False show ?thesis unfolding d by (simp add: written_def)
    next
      case True
      then have ty: "is_info K (msgs ! nat n) \<or> is_error K (msgs ! nat n)" by (simp add: is_text_def)
      from conv_message_text [OF "1.prems"(1,2) ty, of io] obtain io1 where
        cm: "conv_message K dev (msgs ! nat n) io = (None, io1)" and
        o1: "out io1 = out io @ (if is_info K (msgs ! nat n) then rendered (msgs ! nat n) else [])" and
        e1: "err io1 = err io @ (if is_error K (msgs ! nat n) then rendered (msgs ! nat n) else [])"
        by blast
      from "1.IH" [OF lt inb cm [symmetric] refl "1.prems"(1,2) _ "1.prems"(4)] "1.prems"(3)
      obtain io2 where
        l: "conv_loop K dev num_msgs msgs (n + 1) io1 =
              Some (if list_all (is_text K) (drop (nat (n + 1)) (take (nat num_msgs) msgs)) then 0 else - 1, io2)" and
        o2: "out io2 = out io1 @ concat (map rendered (filter (is_info K)
               (written K (drop (nat (n + 1)) (take (nat num_msgs) msgs)))))" and
        e2: "err io2 = err io1 @ concat (map rendered (filter (is_error K)
               (written K (drop (nat (n + 1)) (take (nat num_msgs) msgs)))))"
        by auto
      have "conv_loop K dev num_msgs msgs n io =
              Some (if list_all (is_text K) (drop (nat n) (take (nat num_msgs) msgs)) then 0 else - 1, io2)"
        unfolding d using lt inb cm l True by (subst conv_loop.simps) simp
      moreover have "out io2 = out io @ concat (map rendered (filter (is_info K)
               (written K (drop (nat n) (take (nat num_msgs) msgs)))))"
        unfolding d using o1 o2 True by (simp add: written_def)
      moreover have "err io2 = err io @ concat (map rendered (filter (is_error K)
               (written K (drop (nat n) (take (nat num_msgs) msgs)))))"
        unfolding d using e1 e2 True by (simp add: written_def)
      ultimately show ?thesis by blast
    qed
  qed
qed

lemma conv_example_empty:
  "fuzz_conversation sudo_plugin_h (\<lambda>k n. n) 1 [\<lparr>msg_type = 4, msg = Some []\<rparr>]
      \<lparr>out = [], err = [], writes = 0\<rparr> = Some (0, \<lparr>out = [], err = [], writes = 0\<rparr>)"
  by (simp add: fuzz_conversation_def conv_loop.simps conv_message_def sudo_plugin_h_def)

lemma conv_example_after_prompt:
  "fuzz_conversation sudo_plugin_h (\<lambda>k n. n) 2
      [\<lparr>msg_type = 1, msg = Some ''Password: ''\<rparr>, \<lparr>msg_type = 4, msg = Some ''hello''\<rparr>]
      \<lparr>out = [], err = [], writes = 0\<rparr> = Some (- 1, \<lparr>out = [], err = [], writes = 0\<rparr>)"
  by (simp add: fuzz_conversation_def conv_loop.simps conv_message_def sudo_plugin_h_def)

lemma conv_example_write:
  "fuzz_conversation sudo_plugin_h (\<lambda>k n. n) 2
      [\<lparr>msg_type = 4, msg = Some ''hello''\<rparr>, \<lparr>msg_type = 3, msg = Some ''oops''\<rparr>]
      \<lparr>out = [], err = [], writes = 0\<rparr> =
   Some (0, \<lparr>out = ''hello'' @ [newline], err = ''oops'' @ [newline], writes = 4\<rparr>)"
  by (simp add: fuzz_conversation_def conv_loop.simps conv_message_def sudo_plugin_h_def
      fwrite_def fputc_def emit_def)


section \<open>Properties of the harness\<close>

lemma read_loop_records: "read_loop ok c fp = classify_all ok c (records fp)"
proof (induction ok c fp rule: read_loop.induct)
  case (1 ok c fp)
  show ?case
  proof (cases "getdelim newline fp")
    case None
    then show ?thesis
      by (subst read_loop.simps, subst records.simps) simp
  next
    case (Some p)
    obtain raw rest where p: "p = (raw, rest)" by (cases p)
    show ?thesis
    proof (cases "process_line ok c raw")
      case None
      with Some p show ?thesis
        by (subst read_loop.simps, subst records.simps) simp
    next
      case c': (Some c')
      from "1.IH" [OF Some [unfolded p] refl c'] Some p c' show ?thesis
        by (subst read_loop.simps, subst records.simps) simp
    qed
  qed
qed

lemma get_set_array [simp]:
  "get_array t (set_array t' a c) = (if t = t' then a else get_array t c)"
  by (cases t; cases t') simp_all

lemma get_array_allocs [simp]: "get_array t (c\<lparr>allocs := k\<rparr>) = get_array t c"
  by (cases t) simp_all

lemma allocs_set_array [simp]: "allocs (set_array t a c) = allocs c"
  by (cases t) simp_all

lemma wf_collections_iff: "wf_collections c \<longleftrightarrow> (\<forall>t. wf_array (get_array t c))"
proof
  assume "wf_collections c"
  then show "\<forall>t. wf_array (get_array t c)"
    by (auto simp: wf_collections_def intro: target.induct)
next
  assume a: "\<forall>t. wf_array (get_array t c)"
  from a [rule_format, of Plugin_args] a [rule_format, of Settings] a [rule_format, of User_info]
    a [rule_format, of Argv] a [rule_format, of Env_add]
  show "wf_collections c" by (simp add: wf_collections_def)
qed

lemma lines_of_Nil [simp]: "lines_of t [] = []"
  by (simp add: lines_of_def)

lemma lines_of_append: "lines_of t (r1 @ r2) = lines_of t r1 @ lines_of t r2"
  by (simp add: lines_of_def)

lemma grows_refl: "wf_collections c \<Longrightarrow> grows ok [] c c"
  by (simp add: grows_def)

lemma grows_trans:
  assumes "grows ok r1 c c1" "grows ok r2 c1 c2"
  shows "grows ok (r1 @ r2) c c2"
  unfolding grows_def
proof (intro conjI allI)
  show "wf_collections c2" using assms(2) by (simp add: grows_def)
  show le: "allocs c \<le> allocs c2" using assms by (simp add: grows_def)
  fix t
  show "terminated (get_array t c) \<longrightarrow> terminated (get_array t c2)"
    using assms by (simp add: grows_def)
  from assms(1) obtain xs where xs: "contents (get_array t c1) = contents (get_array t c) @ xs"
    "subseq xs (lines_of t r1)"
    "(\<forall>j. allocs c \<le> j \<and> j < allocs c1 \<longrightarrow> ok j) \<longrightarrow> xs = lines_of t r1"
    unfolding grows_def by blast
  from assms(2) obtain ys where ys: "contents (get_array t c2) = contents (get_array t c1) @ ys"
    "subseq ys (lines_of t r2)"
    "(\<forall>j. allocs c1 \<le> j \<and> j < allocs c2 \<longrightarrow> ok j) \<longrightarrow> ys = lines_of t r2"
    unfolding grows_def by blast
  from assms have l1: "allocs c \<le> allocs c1" and l2: "allocs c1 \<le> allocs c2"
    by (simp_all add: grows_def)
  show "\<exists>zs. contents (get_array t c2) = contents (get_array t c) @ zs \<and>
          subseq zs (lines_of t (r1 @ r2)) \<and>
          ((\<forall>j. allocs c \<le> j \<and> j < allocs c2 \<longrightarrow> ok j) \<longrightarrow> zs = lines_of t (r1 @ r2))"
  proof (intro exI [where x = "xs @ ys"] conjI impI)
    show "contents (get_array t c2) = contents (get_array t c) @ xs @ ys"
      using xs(1) ys(1) by simp
    show "subseq (xs @ ys) (lines_of t (r1 @ r2))"
      unfolding lines_of_append using xs(2) ys(2) by (rule list_emb_append_mono)
    assume a: "\<forall>j. allocs c \<le> j \<and> j < allocs c2 \<longrightarrow> ok j"
    with l1 l2 have "\<forall>j. allocs c \<le> j \<and> j < allocs c1 \<longrightarrow> ok j"
      and "\<forall>j. allocs c1 \<le> j \<and> j < allocs c2 \<longrightarrow> ok j"
      by auto
    with xs(3) ys(3) show "xs @ ys = lines_of t (r1 @ r2)"
      by (simp add: lines_of_append)
  qed
qed

lemma push_into_step:
  assumes "wf_collections c"
  obtains c' where "push_into ok t c e = Some c'" "wf_collections c'" "allocs c \<le> allocs c'"
    "\<forall>t'. t' \<noteq> t \<longrightarrow> get_array t' c' = get_array t' c"
    "terminated (get_array t c) \<longrightarrow> terminated (get_array t c')"
    "(terminated (get_array t c') \<and> contents (get_array t c') = contents (get_array t c) @ entry_list e)
     \<or> (get_array t c' = get_array t c \<and> (\<exists>j. allocs c \<le> j \<and> j < allocs c' \<and> \<not> ok j))"
proof -
  from assms have w: "wf_array (get_array t c)" by (simp add: wf_collections_iff)
  from w obtain r arr' k' where p: "push ok (allocs c) (get_array t c) e = Some (r, arr', k')"
    and k: "allocs c \<le> k'"
    and s: "r \<Longrightarrow> terminated arr' \<and> contents arr' = contents (get_array t c) @ entry_list e"
    and f: "\<not> r \<Longrightarrow> arr' = get_array t c \<and> (\<exists>j. allocs c \<le> j \<and> j < k' \<and> \<not> ok j)"
    by (rule push_wf [where ok = ok and k = "allocs c" and e = e]) blast
  let ?c' = "(set_array t arr' c)\<lparr>allocs := k'\<rparr>"
  have wa: "wf_array arr'" using s f w by (cases r) (auto simp: wf_array_def)
  show ?thesis
  proof (rule that [of ?c'])
    show "push_into ok t c e = Some ?c'" using p by (simp add: push_into_def)
    show "wf_collections ?c'" using assms wa by (simp add: wf_collections_iff)
    show "allocs c \<le> allocs ?c'" using k by simp
    show "\<forall>t'. t' \<noteq> t \<longrightarrow> get_array t' ?c' = get_array t' c" by simp
    show "terminated (get_array t c) \<longrightarrow> terminated (get_array t ?c')"
      using s f by (cases r) auto
    show "(terminated (get_array t ?c') \<and> contents (get_array t ?c') = contents (get_array t c) @ entry_list e)
     \<or> (get_array t ?c' = get_array t c \<and> (\<exists>j. allocs c \<le> j \<and> j < allocs ?c' \<and> \<not> ok j))"
      using s f by (cases r) auto
  qed
qed

lemma push_into_grows:
  assumes "wf_collections c" "\<And>t'. lines_of t' raws = (if t' = t then entry_list e else [])"
  shows "\<exists>c'. push_into ok t c e = Some c' \<and> grows ok raws c c'"
proof -
  from assms(1) obtain c' where c': "push_into ok t c e = Some c'" "wf_collections c'"
    "allocs c \<le> allocs c'"
    "\<forall>t'. t' \<noteq> t \<longrightarrow> get_array t' c' = get_array t' c"
    "terminated (get_array t c) \<longrightarrow> terminated (get_array t c')"
    "(terminated (get_array t c') \<and> contents (get_array t c') = contents (get_array t c) @ entry_list e)
     \<or> (get_array t c' = get_array t c \<and> (\<exists>j. allocs c \<le> j \<and> j < allocs c' \<and> \<not> ok j))"
    by (rule push_into_step [where ok = ok and t = t and e = e]) blast
  have "grows ok raws c c'"
    unfolding grows_def
  proof (intro conjI allI)
    show "wf_collections c'" by (rule c'(2))
    show "allocs c \<le> allocs c'" by (rule c'(3))
    fix t'
    show "terminated (get_array t' c) \<longrightarrow> terminated (get_array t' c')"
      using c'(4) c'(5) by (cases "t' = t") auto
    show "\<exists>xs. contents (get_array t' c') = contents (get_array t' c) @ xs \<and>
            subseq xs (lines_of t' raws) \<and>
            ((\<forall>j. allocs c \<le> j \<and> j < allocs c' \<longrightarrow> ok j) \<longrightarrow> xs = lines_of t' raws)"
    proof (cases "t' = t")
      case False
      with c'(4) assms(2) [of t'] show ?thesis
        by (intro exI [where x = "[]"]) simp
    next
      case True
      from c'(6) show ?thesis
      proof
        assume "terminated (get_array t c') \<and> contents (get_array t c') = contents (get_array t c) @ entry_list e"
        with True assms(2) [of t] show ?thesis
          by (intro exI [where x = "entry_list e"]) simp
      next
        assume "get_array t c' = get_array t c \<and> (\<exists>j. allocs c \<le> j \<and> j < allocs c' \<and> \<not> ok j)"
        with True assms(2) [of t] show ?thesis
          by (intro exI [where x = "[]"]) auto
      qed
    qed
  qed
  with c'(1) show ?thesis by blast
qed

lemma lines_of_single:
  "lines_of t [raw] = (if \<not> discarded (line_of raw) \<and> classify (line_of raw) = t then [line_of raw] else [])"
  by (simp add: lines_of_def)

lemma process_line_grows:
  assumes "wf_collections c"
  shows "\<exists>c'. process_line ok c raw = Some c' \<and> grows ok [raw] c c'"
proof (cases "discarded (line_of raw)")
  case True
  then have "process_line ok c raw = Some c"
    by (simp add: process_line_def line_of_def discarded_def Let_def)
  moreover have "grows ok [raw] c c"
    using assms True by (simp add: grows_def lines_of_single)
  ultimately show ?thesis by blast
next
  case False
  then have p: "process_line ok c raw = push_into ok (classify (line_of raw)) c (Some (line_of raw))"
    by (simp add: process_line_def line_of_def discarded_def Let_def)
  have "\<And>t'. lines_of t' [raw] = (if t' = classify (line_of raw) then entry_list (Some (line_of raw)) else [])"
    using False by (auto simp: lines_of_single entry_list_def)
  from push_into_grows [OF assms this, of ok] p show ?thesis by simp
qed

lemma classify_all_grows:
  assumes "wf_collections c"
  shows "\<exists>c'. classify_all ok c raws = Some c' \<and> grows ok raws c c'"
  using assms
proof (induction raws arbitrary: c)
  case Nil
  then show ?case by (simp add: grows_refl)
next
  case (Cons raw raws)
  from process_line_grows [OF Cons.prems, of ok raw] obtain c1 where
    c1: "process_line ok c raw = Some c1" "grows ok [raw] c c1" by blast
  then have "wf_collections c1" by (simp add: grows_def)
  from Cons.IH [OF this] obtain c' where c': "classify_all ok c1 raws = Some c'" "grows ok raws c1 c'"
    by blast
  from grows_trans [OF c1(2) c'(2)] c1(1) c'(1) show ?case by simp
qed

lemma wf_init: "wf_collections init_collections"
  by (simp add: wf_collections_def init_collections_def wf_array_def)

lemma free_strvec_layout: "free_strvec (map Ptr ss @ NullPtr # rest) = Some (map Free_string ss)"
  by (induction ss) simp_all

lemma free_dynamic_array_wf:
  assumes "wf_array a"
  shows "\<exists>evs. free_dynamic_array a = Some (evs, empty_array) \<and> filter is_plugin_call evs = []"
proof (cases "a = empty_array")
  case True
  then show ?thesis by (simp add: free_dynamic_array_def empty_array_def)
next
  case False
  with assms have "terminated a" by (simp add: wf_array_def)
  then obtain ss rest where "entries a = Some (map Ptr ss @ NullPtr # rest)"
    unfolding terminated_iff by blast
  then have "free_dynamic_array a = Some (map Free_string ss @ [Free_buffer], empty_array)"
    by (simp add: free_dynamic_array_def free_strvec_layout empty_array_def)
  moreover have "filter is_plugin_call (map Free_string ss @ [Free_buffer]) = []"
    by (induction ss) simp_all
  ultimately show ?thesis by blast
qed

lemma cleanup_wf:
  assumes "wf_collections c"
  shows "\<exists>frees. cleanup c = Some frees \<and> filter is_plugin_call frees = []"
proof -
  from assms have w: "wf_array (plugin_args c)" "wf_array (settings c)" "wf_array (user_info c)"
    "wf_array (argv c)" "wf_array (env_add c)" by (simp_all add: wf_collections_def)
  from free_dynamic_array_wf [OF w(1)] obtain e1 where
    1: "free_dynamic_array (plugin_args c) = Some (e1, empty_array)" "filter is_plugin_call e1 = []" by blast
  from free_dynamic_array_wf [OF w(2)] obtain e2 where
    2: "free_dynamic_array (settings c) = Some (e2, empty_array)" "filter is_plugin_call e2 = []" by blast
  from free_dynamic_array_wf [OF w(3)] obtain e3 where
    3: "free_dynamic_array (user_info c) = Some (e3, empty_array)" "filter is_plugin_call e3 = []" by blast
  from free_dynamic_array_wf [OF w(4)] obtain e4 where
    4: "free_dynamic_array (argv c) = Some (e4, empty_array)" "filter is_plugin_call e4 = []" by blast
  from free_dynamic_array_wf [OF w(5)] obtain e5 where
    5: "free_dynamic_array (env_add c) = Some (e5, empty_array)" "filter is_plugin_call e5 = []" by blast
  have "cleanup c = Some (e1 @ e2 @ e3 @ e4 @ e5)"
    by (simp add: cleanup_def 1(1) 2(1) 3(1) 4(1) 5(1))
  moreover have "filter is_plugin_call (e1 @ e2 @ e3 @ e4 @ e5) = []"
    by (simp add: 1(2) 2(2) 3(2) 4(2) 5(2))
  ultimately show ?thesis by blast
qed

lemma push_into_null_fresh:
  assumes "get_array t c = empty_array"
  shows "push_into ok t c None =
     Some ((set_array t (if ok (allocs c)
                         then \<lparr>entries = Some (NullPtr # replicate 127 Garbage), len = 0, asize = 128\<rparr>
                         else empty_array) c)\<lparr>allocs := Suc (allocs c)\<rparr>)"
  using assms by (simp add: push_into_def push_null_empty)

lemma build_grows:
  "\<exists>c3. build ok data = Some c3 \<and> grows ok (records data) init_collections c3 \<and>
        (ok 0 \<longrightarrow> terminated (user_info c3)) \<and> (ok (Suc 0) \<longrightarrow> terminated (settings c3))"
proof -
  let ?A = "\<lparr>entries = Some (NullPtr # replicate 127 Garbage), len = 0, asize = 128\<rparr>"
  let ?c1 = "(set_array User_info (if ok 0 then ?A else empty_array) init_collections)\<lparr>allocs := Suc 0\<rparr>"
  let ?c2 = "(set_array Settings (if ok (Suc 0) then ?A else empty_array) ?c1)\<lparr>allocs := Suc (Suc 0)\<rparr>"
  have nolines: "\<And>t t'. lines_of t' [] = (if t' = t then entry_list None else [])"
    by (simp add: entry_list_def)
  have p1: "push_into ok User_info init_collections None = Some ?c1"
    using push_into_null_fresh [of User_info init_collections ok]
    by (simp add: init_collections_def)
  from push_into_grows [OF wf_init nolines, of ok User_info] p1
  have g1: "grows ok [] init_collections ?c1" by simp
  then have w1: "wf_collections ?c1" by (simp add: grows_def)
  have p2: "push_into ok Settings ?c1 None = Some ?c2"
    using push_into_null_fresh [of Settings ?c1 ok]
    by (simp add: init_collections_def)
  from push_into_grows [OF w1 nolines, of ok Settings] p2
  have g2: "grows ok [] ?c1 ?c2" by simp
  then have w2: "wf_collections ?c2" by (simp add: grows_def)
  from classify_all_grows [OF w2, of ok "records data"] obtain c3 where
    c3: "classify_all ok ?c2 (records data) = Some c3" "grows ok (records data) ?c2 c3" by blast
  from grows_trans [OF grows_trans [OF g1 g2] c3(2)]
  have g: "grows ok (records data) init_collections c3" by simp
  have b: "build ok data = Some c3"
    using p1 p2 c3(1) by (simp add: build_def read_loop_records)
  have t1: "ok 0 \<longrightarrow> terminated (get_array User_info ?c2)"
    using terminated_null_start by simp
  have t2: "ok (Suc 0) \<longrightarrow> terminated (get_array Settings ?c2)"
    using terminated_null_start by simp
  from c3(2) have "\<forall>t. terminated (get_array t ?c2) \<longrightarrow> terminated (get_array t c3)"
    unfolding grows_def by blast
  with t1 t2 have "ok 0 \<longrightarrow> terminated (get_array User_info c3)"
    "ok (Suc 0) \<longrightarrow> terminated (get_array Settings c3)" by blast+
  with g b show ?thesis by simp
qed

lemma wf_array_vec:
  assumes "wf_array a"
  shows "vec_holds (entries a) (contents a)" "length (contents a) = len a"
proof -
  show "vec_holds (entries a) (contents a)"
  proof (cases "a = empty_array")
    case True
    then show ?thesis by (simp add: vec_holds_def empty_array_def contents_def)
  next
    case False
    with assms have "terminated a" by (simp add: wf_array_def)
    then obtain ss rest where "entries a = Some (map Ptr ss @ NullPtr # rest)"
      unfolding terminated_iff by blast
    then show ?thesis by (simp add: vec_holds_def contents_def)
  qed
  show "length (contents a) = len a"
  proof (cases "a = empty_array")
    case True
    then show ?thesis by (simp add: empty_array_def contents_def)
  next
    case False
    with assms have "terminated a" by (simp add: wf_array_def)
    from terminated_slots [OF this] show ?thesis by blast
  qed
qed

lemma terminated_vec:
  assumes "terminated a"
  shows "\<exists>buf. entries a = Some buf \<and> strvec buf = Some (contents a)"
proof -
  from assms obtain ss rest where "entries a = Some (map Ptr ss @ NullPtr # rest)"
    unfolding terminated_iff by blast
  then show ?thesis by (simp add: contents_def)
qed

lemma drive_zero: "drive ok plugin 0 c = Some (close_call plugin, c)"
  by (simp add: drive_def close_call_def)

lemma drive_other: "res \<noteq> 0 \<Longrightarrow> res \<noteq> 1 \<Longrightarrow> drive ok plugin res c = Some ([], c)"
  by (simp add: drive_def)

lemma drive_one:
  assumes "wf_collections c"
  shows "\<exists>c4. drive ok plugin 1 c =
            Some (Policy_check (int_of_size (len (argv c4))) (entries (argv c4)) (entries (env_add c4))
                    # close_call plugin, c4) \<and>
          wf_collections c4 \<and>
          (len (argv c) = 0 \<and> (\<forall>j. ok j) \<longrightarrow>
             terminated (argv c4) \<and> contents (argv c4) = [''/usr/bin/id''])"
proof (cases "len (argv c) = 0")
  case False
  with assms show ?thesis
    by (intro exI [where x = c]) (simp add: drive_def close_call_def)
next
  case True
  from assms obtain c' where c': "push_into ok Argv c (Some ''/usr/bin/id'') = Some c'"
    "wf_collections c'"
    "(terminated (get_array Argv c') \<and>
        contents (get_array Argv c') = contents (get_array Argv c) @ entry_list (Some ''/usr/bin/id''))
     \<or> (get_array Argv c' = get_array Argv c \<and> (\<exists>j. allocs c \<le> j \<and> j < allocs c' \<and> \<not> ok j))"
    by (rule push_into_step [where ok = ok and t = Argv and e = "Some ''/usr/bin/id''"]) blast
  from assms have "wf_array (argv c)" by (simp add: wf_collections_def)
  from wf_array_vec(2) [OF this] True have e: "contents (argv c) = []" by simp
  have d: "drive ok plugin 1 c =
            Some (Policy_check (int_of_size (len (argv c'))) (entries (argv c')) (entries (env_add c'))
                    # close_call plugin, c')"
    using True c'(1) by (simp add: drive_def close_call_def)
  have "(\<forall>j. ok j) \<longrightarrow> terminated (argv c') \<and> contents (argv c') = [''/usr/bin/id'']"
    using c'(3) e by (auto simp: entry_list_def)
  with d c'(2) show ?thesis by blast
qed

lemma LLVM_build:
  "LLVMFuzzerTestOneInput True ok plugin data =
     (case build ok data of
        None \<Rightarrow> None
      | Some c3 \<Rightarrow>
          (case drive ok plugin (policy_open plugin (entries (settings c3)) (entries (user_info c3))
                        (entries (plugin_args c3))) c3 of
             None \<Rightarrow> None
           | Some (evs, c4) \<Rightarrow>
               (case cleanup c4 of
                  None \<Rightarrow> None
                | Some frees \<Rightarrow>
                    Some (Policy_open (entries (settings c3)) (entries (user_info c3))
                           (entries (plugin_args c3))
                           (policy_open plugin (entries (settings c3)) (entries (user_info c3))
                              (entries (plugin_args c3))) # evs @ frees))))"
  by (simp add: LLVMFuzzerTestOneInput_def build_def Let_def split: option.splits)

lemma harness_trace:
  "\<exists>c3 evs c4 frees.
      build ok data = Some c3 \<and>
      drive ok plugin (policy_open plugin (entries (settings c3)) (entries (user_info c3))
                        (entries (plugin_args c3))) c3 = Some (evs, c4) \<and>
      filter is_plugin_call frees = [] \<and>
      LLVMFuzzerTestOneInput True ok plugin data =
        Some (Policy_open (entries (settings c3)) (entries (user_info c3)) (entries (plugin_args c3))
               (policy_open plugin (entries (settings c3)) (entries (user_info c3))
                  (entries (plugin_args c3))) # evs @ frees)"
proof -
  from build_grows [of ok data] obtain c3 where b: "build ok data = Some c3"
    and g: "grows ok (records data) init_collections c3" by blast
  from g have w: "wf_collections c3" by (simp add: grows_def)
  let ?r = "policy_open plugin (entries (settings c3)) (entries (user_info c3)) (entries (plugin_args c3))"
  have "\<exists>evs c4. drive ok plugin ?r c3 = Some (evs, c4) \<and> wf_collections c4"
  proof (cases "?r = 0")
    case True
    then show ?thesis using w by (simp add: drive_zero)
  next
    case nz: False
    show ?thesis
    proof (cases "?r = 1")
      case True
      with drive_one [OF w, of ok plugin] show ?thesis by auto
    next
      case False
      with nz w show ?thesis by (simp add: drive_other)
    qed
  qed
  then obtain evs c4 where d: "drive ok plugin ?r c3 = Some (evs, c4)" and w4: "wf_collections c4"
    by blast
  from cleanup_wf [OF w4] obtain frees where f: "cleanup c4 = Some frees"
    "filter is_plugin_call frees = []" by blast
  have "LLVMFuzzerTestOneInput True ok plugin data =
      Some (Policy_open (entries (settings c3)) (entries (user_info c3)) (entries (plugin_args c3)) ?r
             # evs @ frees)"
    by (simp add: LLVM_build b d f(1))
  with b d f(2) show ?thesis by blast
qed

lemma no_calls_no_close: "filter is_plugin_call xs = [] \<Longrightarrow> filter is_close xs = []"
proof (induction xs)
  case Nil
  then show ?case by simp
next
  case (Cons x xs)
  then show ?case by (cases x) (simp_all split: if_splits)
qed

lemma close_calls_close_call [simp]: "filter is_close (close_call plugin) = close_call plugin"
  by (simp add: close_call_def)

lemma plugin_calls_close_call [simp]: "filter is_plugin_call (close_call plugin) = close_call plugin"
  by (simp add: close_call_def)

lemma contents_init [simp]: "contents (get_array t init_collections) = []"
  by (cases t) (simp_all add: init_collections_def)

lemma build_result:
  "\<exists>c3. build ok data = Some c3 \<and> wf_collections c3 \<and>
        (\<forall>t. subseq (contents (get_array t c3)) (lines_for t data) \<and>
             ((\<forall>j. ok j) \<longrightarrow> contents (get_array t c3) = lines_for t data)) \<and>
        (ok 0 \<longrightarrow> terminated (user_info c3)) \<and> (ok (Suc 0) \<longrightarrow> terminated (settings c3))"
proof -
  from build_grows [of ok data] obtain c3 where b: "build ok data = Some c3"
    and g: "grows ok (records data) init_collections c3"
    and t: "ok 0 \<longrightarrow> terminated (user_info c3)" "ok (Suc 0) \<longrightarrow> terminated (settings c3)"
    by blast
  from g have w: "wf_collections c3" by (simp add: grows_def)
  have "\<forall>t. subseq (contents (get_array t c3)) (lines_for t data) \<and>
             ((\<forall>j. ok j) \<longrightarrow> contents (get_array t c3) = lines_for t data)"
  proof
    fix t
    from g obtain xs where xs: "contents (get_array t c3) = contents (get_array t init_collections) @ xs"
      "subseq xs (lines_of t (records data))"
      "(\<forall>j. allocs init_collections \<le> j \<and> j < allocs c3 \<longrightarrow> ok j) \<longrightarrow> xs = lines_of t (records data)"
      unfolding grows_def by blast
    from xs(1) have c: "contents (get_array t c3) = xs" by simp
    from xs(3) have "(\<forall>j. ok j) \<longrightarrow> xs = lines_of t (records data)" by blast
    with xs(2) c show "subseq (contents (get_array t c3)) (lines_for t data) \<and>
             ((\<forall>j. ok j) \<longrightarrow> contents (get_array t c3) = lines_for t data)"
      by (simp add: lines_for_def)
  qed
  with b w t show ?thesis by blast
qed

lemma int_of_size_1 [simp]: "int_of_size (Suc 0) = 1"
  by (simp add: int_of_size_def)

lemma of_char_NUL: "of_char c = (0::int) \<longleftrightarrow> c = NUL"
proof -
  have "of_char NUL = (0::int)" by (simp add: NUL_def)
  then have "of_char c = (0::int) \<longleftrightarrow> (of_char c :: int) = of_char NUL" by simp
  then show ?thesis by (simp only: of_char_eq_iff)
qed

lemma key_match_prefix:
  "NUL \<notin> set key \<Longrightarrow> key_match line key = prefix key line"
  unfolding key_match_def
proof (induction key arbitrary: line)
  case Nil
  then show ?case by simp
next
  case (Cons b key)
  show ?case
  proof (cases line)
    case Nil
    with Cons.prems show ?thesis by (auto simp: of_char_NUL)
  next
    case (Cons a line')
    with Cons.prems Cons.IH [of line'] show ?thesis by auto
  qed
qed

lemma keys_no_NUL:
  "NUL \<notin> set ''error_recovery=''" "NUL \<notin> set ''sudoers_file=''" "NUL \<notin> set ''sudoers_mode=''"
  "NUL \<notin> set ''sudoers_gid=''" "NUL \<notin> set ''sudoers_uid=''" "NUL \<notin> set ''ldap_conf=''"
  "NUL \<notin> set ''ldap_secret=''" "NUL \<notin> set ''user=''" "NUL \<notin> set ''uid=''" "NUL \<notin> set ''gid=''"
  "NUL \<notin> set ''groups=''" "NUL \<notin> set ''cwd=''" "NUL \<notin> set ''tty=''" "NUL \<notin> set ''host=''"
  "NUL \<notin> set ''lines=''" "NUL \<notin> set ''cols=''" "NUL \<notin> set ''sid=''" "NUL \<notin> set ''umask=''"
  "NUL \<notin> set ''rlimit_''" "NUL \<notin> set ''argv=''" "NUL \<notin> set ''env=''"
  by (simp_all add: NUL_def)

lemmas key_match_keys = keys_no_NUL [THEN key_match_prefix]

lemma classify_prefix:
  "classify line =
     (if prefix ''error_recovery='' line then Plugin_args
      else if prefix ''sudoers_file='' line then Plugin_args
      else if prefix ''sudoers_mode='' line then Plugin_args
      else if prefix ''sudoers_gid='' line then Plugin_args
      else if prefix ''sudoers_uid='' line then Plugin_args
      else if prefix ''ldap_conf='' line then Plugin_args
      else if prefix ''ldap_secret='' line then Plugin_args
      else if prefix ''user='' line then User_info
      else if prefix ''uid='' line then User_info
      else if prefix ''gid='' line then User_info
      else if prefix ''groups='' line then User_info
      else if prefix ''cwd='' line then User_info
      else if prefix ''tty='' line then User_info
      else if prefix ''host='' line then User_info
      else if prefix ''lines='' line then User_info
      else if prefix ''cols='' line then User_info
      else if prefix ''sid='' line then User_info
      else if prefix ''umask='' line then User_info
      else if prefix ''rlimit_'' line then User_info
      else if prefix ''argv='' line then Argv
      else if prefix ''env='' line then Env_add
      else Settings)"
  unfolding classify_def by (simp only: key_match_keys)

lemma classify_table: "classify line = classify_by_table line"
  by (simp add: classify_prefix classify_by_table_def prefix_table_def)

lemma line_of_no_NUL: "NUL \<notin> set (line_of raw)"
  unfolding line_of_def c_string_def by (auto dest: set_takeWhileD)

lemma discarded_iff:
  "NUL \<notin> set l \<Longrightarrow> discarded l \<longleftrightarrow> l = [] \<or> prefix ''#'' l"
  by (cases l) (auto simp: discarded_def first_char_def NUL_def)

lemma line_of_prefix:
  assumes "prefix key raw" "NUL \<notin> set key" "newline \<notin> set key"
  shows "prefix key (line_of raw)"
proof -
  from assms(1) obtain r where raw: "raw = key @ r" by (auto simp: prefix_def)
  have tw: "\<And>zs. takeWhile (\<lambda>c. c \<noteq> NUL) (key @ zs) = key @ takeWhile (\<lambda>c. c \<noteq> NUL) zs"
    using assms(2) by (intro takeWhile_append2) auto
  show ?thesis
  proof (cases "r = []")
    case True
    show ?thesis
    proof (cases "key = []")
      case True
      then show ?thesis by simp
    next
      case False
      with assms(3) have "last key \<noteq> newline" using last_in_set by metis
      with True raw False have "strip_newline raw = key @ [NUL]"
        by (simp add: strip_newline_def)
      then show ?thesis by (simp add: line_of_def c_string_def tw)
    qed
  next
    case False
    then have "strip_newline raw = key @ ((if last r = newline then butlast r @ [NUL] else r) @ [NUL])"
      using raw by (simp add: strip_newline_def butlast_append)
    then show ?thesis by (simp add: line_of_def c_string_def tw)
  qed
qed

lemma records_example:
  "records example_input =
     [''user=alice'' @ [newline], ''uid=1000'' @ [newline], ''argv=/bin/ls'' @ [newline],
      ''foo=bar'' @ [newline], ''# comment'' @ [newline], [newline]]"
  by (simp add: example_input_def records.simps newline_def)

lemma line_of_examples:
  "line_of (''user=alice'' @ [newline]) = ''user=alice''"
  "line_of (''uid=1000'' @ [newline]) = ''uid=1000''"
  "line_of (''argv=/bin/ls'' @ [newline]) = ''argv=/bin/ls''"
  "line_of (''foo=bar'' @ [newline]) = ''foo=bar''"
  "line_of (''# comment'' @ [newline]) = ''# comment''"
  "line_of [newline] = []"
  "line_of ''user=alice'' = ''user=alice''"
  by (simp_all add: line_of_def strip_newline_def c_string_def NUL_def newline_def)

lemma classify_examples:
  "classify ''user=alice'' = User_info" "classify ''uid=1000'' = User_info"
  "classify ''argv=/bin/ls'' = Argv" "classify ''foo=bar'' = Settings"
  "classify ''USER=alice'' = Settings"
  by (simp_all add: classify_prefix)

lemma discarded_examples:
  "discarded ''# comment''" "discarded []" "\<not> discarded ''user=alice''" "\<not> discarded ''uid=1000''"
  "\<not> discarded ''argv=/bin/ls''" "\<not> discarded ''foo=bar''"
  by (simp_all add: discarded_def first_char_def NUL_def)

lemma lines_for_example:
  "lines_for Settings example_input = [''foo=bar'']"
  "lines_for User_info example_input = [''user=alice'', ''uid=1000'']"
  "lines_for Argv example_input = [''argv=/bin/ls'']"
  "lines_for Plugin_args example_input = []"
  "lines_for Env_add example_input = []"
  by (simp_all add: lines_for_def lines_of_def records_example line_of_examples [simplified]
      classify_examples discarded_examples)

lemma records_single: "records ''user=alice'' = [''user=alice'']"
  by (simp add: records.simps newline_def)

lemma lines_for_single:
  "lines_for Settings ''user=alice'' = []"
  "lines_for User_info ''user=alice'' = [''user=alice'']"
  "lines_for Argv ''user=alice'' = []"
  "lines_for Plugin_args ''user=alice'' = []"
  by (simp_all add: lines_for_def lines_of_def records_single line_of_examples classify_examples
      discarded_examples)

lemma process_line_user_alice:
  "process_line ok c ''user=alice'' = push_into ok User_info c (Some ''user=alice'')"
  by (simp add: process_line_def line_of_examples [unfolded line_of_def] classify_examples
      discarded_examples [unfolded discarded_def] Let_def)

lemma build_all_fail:
  "build (\<lambda>k. False) ''user=alice'' = Some (init_collections\<lparr>allocs := 3\<rparr>)"
proof -
  have 1: "push_into (\<lambda>k. False) User_info init_collections None = Some (init_collections\<lparr>allocs := 1\<rparr>)"
    by (simp add: push_into_def push_null_empty init_collections_def)
  have 2: "push_into (\<lambda>k. False) Settings (init_collections\<lparr>allocs := 1\<rparr>) None
             = Some (init_collections\<lparr>allocs := 2\<rparr>)"
    by (simp add: push_into_def push_null_empty init_collections_def)
  have 3: "push_into (\<lambda>k. False) User_info (init_collections\<lparr>allocs := 2\<rparr>) (Some ''user=alice'')
             = Some (init_collections\<lparr>allocs := 3\<rparr>)"
    by (simp add: push_into_def push_str_empty init_collections_def)
  show ?thesis
    using 1 2 3 by (simp add: build_def read_loop_records records_single process_line_user_alice)
qed

lemma run_all_fail:
  "LLVMFuzzerTestOneInput True (\<lambda>k. False) \<lparr>policy_open = (\<lambda>s u p. 0), has_close = False\<rparr> ''user=alice''
     = Some [Policy_open None None None 0]"
  by (simp add: LLVM_build build_all_fail drive_zero close_call_def cleanup_def free_dynamic_array_def
      init_collections_def empty_array_def)

lemma build_strdup_fails:
  "build (\<lambda>k. k < 2) ''user=alice'' =
     Some \<lparr>plugin_args = empty_array,
           settings = \<lparr>entries = Some (NullPtr # replicate 127 Garbage), len = 0, asize = 128\<rparr>,
           user_info = \<lparr>entries = Some (NullPtr # replicate 127 Garbage), len = 0, asize = 128\<rparr>,
           argv = empty_array, env_add = empty_array, allocs = 3\<rparr>"
proof -
  let ?A = "\<lparr>entries = Some (NullPtr # replicate 127 Garbage), len = 0, asize = 128\<rparr>"
  let ?c1 = "\<lparr>plugin_args = empty_array, settings = empty_array, user_info = ?A,
           argv = empty_array, env_add = empty_array, allocs = 1\<rparr>"
  let ?c2 = "\<lparr>plugin_args = empty_array, settings = ?A, user_info = ?A,
           argv = empty_array, env_add = empty_array, allocs = 2\<rparr>"
  have 1: "push_into (\<lambda>k. k < 2) User_info init_collections None = Some ?c1"
    by (simp add: push_into_def push_null_empty init_collections_def)
  have 2: "push_into (\<lambda>k. k < 2) Settings ?c1 None = Some ?c2"
    by (simp add: push_into_def push_null_empty)
  have r: "push (\<lambda>k. k < 2) 2 ?A (Some ''user=alice'') = Some (False, ?A, 3)"
    using push_str_room [where ss = "[]" and r = Garbage and rest = "replicate 126 Garbage"
        and s = "''user=alice''" and ok = "\<lambda>k. k < 2" and k = 2 and arr = ?A]
    by (simp add: numeral_eq_Suc)
  have 3: "push_into (\<lambda>k. k < 2) User_info ?c2 (Some ''user=alice'') = Some (?c2\<lparr>allocs := 3\<rparr>)"
    by (simp add: push_into_def r)
  show ?thesis
    using 1 2 3 by (simp add: build_def read_loop_records records_single process_line_user_alice)
qed

lemma run_strdup_fails:
  "LLVMFuzzerTestOneInput True (\<lambda>k. k < 2) \<lparr>policy_open = (\<lambda>s u p. 0), has_close = False\<rparr> ''user=alice''
     = Some [Policy_open (Some (NullPtr # replicate 127 Garbage)) (Some (NullPtr # replicate 127 Garbage)) None 0,
             Free_buffer, Free_buffer]"
  by (simp add: LLVM_build build_strdup_fails drive_zero close_call_def cleanup_def free_dynamic_array_def
      empty_array_def)


lemma abs_array_of_empty [simp]: "abs_array_of empty_array = ([], 0)"
  by (simp add: abs_array_of_def empty_array_def contents_def)

lemma abs_array_of_layout:
  "entries arr = Some (map Ptr ss @ NullPtr # rest) \<Longrightarrow> abs_array_of arr = (ss, asize arr)"
  by (simp add: abs_array_of_def contents_def)

lemma push_refines:
  assumes "wf_array arr"
  shows "case push ok k arr e of
           None \<Rightarrow> False
         | Some (r, arr', k') \<Rightarrow>
             abs_push ok k (abs_array_of arr) e = (r, abs_array_of arr', k') \<and>
             wf_array arr' \<and> (\<not> r \<longrightarrow> arr' = arr)"
proof (cases "arr = empty_array")
  case True
  have a0: "abs_array_of \<lparr>entries = Some (NullPtr # replicate 127 Garbage), len = 0, asize = 128\<rparr> = ([], 128)"
    using abs_array_of_layout [where ss = "[]" and rest = "replicate 127 Garbage"
        and arr = "\<lparr>entries = Some (NullPtr # replicate 127 Garbage), len = 0, asize = 128\<rparr>"]
    by simp
  have w0: "wf_array \<lparr>entries = Some (NullPtr # replicate 127 Garbage), len = 0, asize = 128\<rparr>"
    using terminated_null_start by (simp add: wf_array_def)
  show ?thesis
  proof (cases e)
    case None
    with True a0 w0 wf_empty_array show ?thesis
      by (simp add: push_null_empty abs_push_def)
  next
    case (Some s)
    have a1: "abs_array_of \<lparr>entries = Some (Ptr s # NullPtr # replicate 126 Garbage), len = 1, asize = 128\<rparr> = ([s], 128)"
      using abs_array_of_layout [where ss = "[s]" and rest = "replicate 126 Garbage"
          and arr = "\<lparr>entries = Some (Ptr s # NullPtr # replicate 126 Garbage), len = 1, asize = 128\<rparr>"]
      by simp
    have w1: "wf_array \<lparr>entries = Some (Ptr s # NullPtr # replicate 126 Garbage), len = 1, asize = 128\<rparr>"
      using terminated_str_start [of s] by (simp add: wf_array_def)
    from True Some a1 w1 wf_empty_array show ?thesis
      by (simp add: push_str_empty abs_push_def)
  qed
next
  case False
  with assms have tm: "terminated arr" by (simp add: wf_array_def)
  then obtain ss rest where lay: "entries arr = Some (map Ptr ss @ NullPtr # rest)"
    "len arr = length ss" "asize arr = length ss + 1 + length rest"
    unfolding terminated_iff by blast
  have a: "abs_array_of arr = (ss, asize arr)" using lay(1) by (rule abs_array_of_layout)
  show ?thesis
  proof (cases e)
    case None
    with push_null_terminated [OF lay, of ok k] a lay(3) assms show ?thesis
      by (simp add: abs_push_def)
  next
    case (Some s)
    show ?thesis
    proof (cases rest)
      case Nil
      let ?arr' = "arr\<lparr>entries := Some (map Ptr (ss @ [s]) @ NullPtr # replicate 127 Garbage),
                     len := length ss + 1, asize := length ss + 129\<rparr>"
      have t: "terminated ?arr'"
        by (rule terminatedI [where ss = "ss @ [s]" and rest = "replicate 127 Garbage"]) simp_all
      have a': "abs_array_of ?arr' = (ss @ [s], length ss + 129)"
        using abs_array_of_layout [where arr = ?arr' and ss = "ss @ [s]" and rest = "replicate 127 Garbage"]
        by simp
      from lay Nil have p: "push ok k arr (Some s) =
          (if ok k \<and> ok (Suc k) then Some (True, ?arr', Suc (Suc k))
           else Some (False, arr, if ok k then Suc (Suc k) else Suc k))"
        by (intro push_str_full) simp_all
      show ?thesis
        unfolding Some p using a a' t assms lay(3) Nil
        by (simp add: abs_push_def wf_array_def)
    next
      case (Cons r rest')
      let ?arr' = "arr\<lparr>entries := Some (map Ptr (ss @ [s]) @ NullPtr # rest'), len := length ss + 1\<rparr>"
      have t: "terminated ?arr'"
        using lay(3) Cons by (intro terminatedI [where ss = "ss @ [s]" and rest = rest']) simp_all
      have a': "abs_array_of ?arr' = (ss @ [s], asize arr)"
        using abs_array_of_layout [where arr = ?arr' and ss = "ss @ [s]" and rest = rest']
        by simp
      from lay Cons have p: "push ok k arr (Some s) =
          (if ok k then Some (True, ?arr', Suc k) else Some (False, arr, Suc k))"
        by (intro push_str_room) simp_all
      show ?thesis
        unfolding Some p using a a' t assms lay(3) Cons
        by (simp add: abs_push_def wf_array_def)
    qed
  qed
qed

lemma abs_push_result:
  assumes "abs_push ok k a e = (r, a', k')"
  shows "r = (\<forall>j. k \<le> j \<and> j < k' \<longrightarrow> ok j)" "\<not> r \<longrightarrow> a' = a" "k \<le> k'"
proof -
  have h1: "\<And>j. k \<le> j \<Longrightarrow> j < Suc k \<Longrightarrow> j = k" by arith
  have h2: "\<And>j. k \<le> j \<Longrightarrow> j < Suc (Suc k) \<Longrightarrow> j = k \<or> j = Suc k" by arith
  have e2: "\<not> ok (Suc k) \<Longrightarrow> \<exists>j\<ge>k. j < Suc (Suc k) \<and> \<not> ok j"
    by (intro exI [where x = "Suc k"]) simp
  from assms show "r = (\<forall>j. k \<le> j \<and> j < k' \<longrightarrow> ok j)"
    by (cases e) (auto simp: abs_push_def e2 split: if_splits dest: h1 h2)
  from assms show "\<not> r \<longrightarrow> a' = a"
    by (cases e) (auto simp: abs_push_def split: if_splits)
  from assms show "k \<le> k'"
    by (cases e) (auto simp: abs_push_def split: if_splits)
qed

lemma abs_of_init: "abs_of init_collections = (\<lambda>t. ([], 0), 0)"
proof -
  have "\<And>t. get_array t init_collections = empty_array"
    by (case_tac t) (simp_all add: init_collections_def)
  then show ?thesis by (simp add: abs_of_def init_collections_def)
qed

lemma push_into_refines:
  assumes "wf_collections c"
  shows "\<exists>c'. push_into ok t c e = Some c' \<and> wf_collections c' \<and>
           abs_of c' = abs_push_into ok t (abs_of c) e"
proof -
  from assms have w: "wf_array (get_array t c)" by (simp add: wf_collections_iff)
  from push_refines [OF w, of ok "allocs c" e] obtain r arr' k' where
    p: "push ok (allocs c) (get_array t c) e = Some (r, arr', k')" and
    a: "abs_push ok (allocs c) (abs_array_of (get_array t c)) e = (r, abs_array_of arr', k')" and
    w': "wf_array arr'"
    by (auto split: option.splits)
  let ?c' = "(set_array t arr' c)\<lparr>allocs := k'\<rparr>"
  have 1: "push_into ok t c e = Some ?c'" using p by (simp add: push_into_def)
  have 2: "wf_collections ?c'" using assms w' by (simp add: wf_collections_iff)
  have 3: "abs_of ?c' = abs_push_into ok t (abs_of c) e"
    using a by (auto simp: abs_of_def abs_push_into_def fun_eq_iff)
  from 1 2 3 show ?thesis by blast
qed

lemma process_line_refines:
  assumes "wf_collections c"
  shows "\<exists>c'. process_line ok c raw = Some c' \<and> wf_collections c' \<and>
           abs_of c' = (if discarded (line_of raw) then abs_of c
                        else abs_push_into ok (classify (line_of raw)) (abs_of c) (Some (line_of raw)))"
proof (cases "discarded (line_of raw)")
  case True
  then have "process_line ok c raw = Some c"
    by (simp add: process_line_def line_of_def discarded_def Let_def)
  with True assms show ?thesis by simp
next
  case False
  then have "process_line ok c raw = push_into ok (classify (line_of raw)) c (Some (line_of raw))"
    by (simp add: process_line_def line_of_def discarded_def Let_def)
  with False push_into_refines [OF assms, of ok "classify (line_of raw)" "Some (line_of raw)"]
  show ?thesis by simp
qed

lemma classify_all_refines:
  assumes "wf_collections c"
  shows "\<exists>c'. classify_all ok c raws = Some c' \<and> wf_collections c' \<and>
           abs_of c' = abs_classify_all ok (abs_of c) raws"
  using assms
proof (induction raws arbitrary: c)
  case Nil
  then show ?case by simp
next
  case (Cons raw raws)
  from process_line_refines [OF Cons.prems, of ok raw] obtain c1 where
    c1: "process_line ok c raw = Some c1" "wf_collections c1"
    "abs_of c1 = (if discarded (line_of raw) then abs_of c
                  else abs_push_into ok (classify (line_of raw)) (abs_of c) (Some (line_of raw)))"
    by blast
  from Cons.IH [OF c1(2)] obtain c' where c': "classify_all ok c1 raws = Some c'" "wf_collections c'"
    "abs_of c' = abs_classify_all ok (abs_of c1) raws" by blast
  from c1(1,3) c' show ?case by simp
qed

lemma build_refines:
  "\<exists>c3. build ok data = Some c3 \<and> wf_collections c3 \<and> abs_of c3 = abs_build ok data"
proof -
  from push_into_refines [OF wf_init, of ok User_info None] obtain c1 where
    c1: "push_into ok User_info init_collections None = Some c1" "wf_collections c1"
    "abs_of c1 = abs_push_into ok User_info (abs_of init_collections) None" by blast
  from push_into_refines [OF c1(2), of ok Settings None] obtain c2 where
    c2: "push_into ok Settings c1 None = Some c2" "wf_collections c2"
    "abs_of c2 = abs_push_into ok Settings (abs_of c1) None" by blast
  from classify_all_refines [OF c2(2), of ok "records data"] obtain c3 where
    c3: "classify_all ok c2 (records data) = Some c3" "wf_collections c3"
    "abs_of c3 = abs_classify_all ok (abs_of c2) (records data)" by blast
  have "build ok data = Some c3"
    using c1(1) c2(1) c3(1) by (simp add: build_def read_loop_records)
  moreover have "abs_of c3 = abs_build ok data"
    using c1(3) c2(3) c3(3) by (simp add: abs_build_def abs_of_init)
  ultimately show ?thesis using c3(2) by blast
qed

lemma pushed_contents:
  "build ok data = Some c3 \<Longrightarrow> contents (get_array t c3) = pushed ok data t"
proof -
  assume b: "build ok data = Some c3"
  from build_refines [of ok data] b have "abs_of c3 = abs_build ok data" by auto
  then have "fst (fst (abs_of c3) t) = fst (fst (abs_build ok data) t)" by simp
  then show ?thesis by (simp add: pushed_def abs_of_def abs_array_of_def)
qed

lemma records_two_users: "records two_users = [''user=alice'' @ [newline], ''uid=1000'']"
  by (simp add: two_users_def records.simps newline_def)

lemma line_of_uid: "line_of ''uid=1000'' = ''uid=1000''"
  by (simp add: line_of_def strip_newline_def c_string_def NUL_def newline_def)

lemma lines_for_two_users:
  "lines_for User_info two_users = [''user=alice'', ''uid=1000'']"
  by (simp add: lines_for_def lines_of_def records_two_users line_of_examples [simplified] line_of_uid
      classify_examples discarded_examples)

lemma pushed_two_users:
  "pushed (\<lambda>k. k \<noteq> 2) two_users Settings = []"
  "pushed (\<lambda>k. k \<noteq> 2) two_users User_info = [''uid=1000'']"
  "pushed (\<lambda>k. k \<noteq> 2) two_users Plugin_args = []"
  by (simp_all add: pushed_def abs_build_def abs_push_into_def abs_push_def records_two_users
      line_of_examples [simplified] line_of_uid classify_examples discarded_examples)

lemma build_no_room_for_id:
  "build (\<lambda>k. k < 3) ''user=alice'' =
     Some \<lparr>plugin_args = empty_array,
           settings = \<lparr>entries = Some (NullPtr # replicate 127 Garbage), len = 0, asize = 128\<rparr>,
           user_info = \<lparr>entries = Some (Ptr ''user=alice'' # NullPtr # replicate 126 Garbage),
                         len = 1, asize = 128\<rparr>,
           argv = empty_array, env_add = empty_array, allocs = 3\<rparr>"
proof -
  let ?A = "\<lparr>entries = Some (NullPtr # replicate 127 Garbage), len = 0, asize = 128\<rparr>"
  let ?B = "\<lparr>entries = Some (Ptr ''user=alice'' # NullPtr # replicate 126 Garbage), len = 1, asize = 128\<rparr>"
  let ?c1 = "\<lparr>plugin_args = empty_array, settings = empty_array, user_info = ?A,
           argv = empty_array, env_add = empty_array, allocs = 1\<rparr>"
  let ?c2 = "\<lparr>plugin_args = empty_array, settings = ?A, user_info = ?A,
           argv = empty_array, env_add = empty_array, allocs = 2\<rparr>"
  have 1: "push_into (\<lambda>k. k < 3) User_info init_collections None = Some ?c1"
    by (simp add: push_into_def push_null_empty init_collections_def)
  have 2: "push_into (\<lambda>k. k < 3) Settings ?c1 None = Some ?c2"
    by (simp add: push_into_def push_null_empty)
  have r: "push (\<lambda>k. k < 3) 2 ?A (Some ''user=alice'') = Some (True, ?B, 3)"
    using push_str_room [where ss = "[]" and r = Garbage and rest = "replicate 126 Garbage"
        and s = "''user=alice''" and ok = "\<lambda>k. k < 3" and k = 2 and arr = ?A]
    by (simp add: numeral_eq_Suc)
  have 3: "push_into (\<lambda>k. k < 3) User_info ?c2 (Some ''user=alice'') = Some (?c2\<lparr>user_info := ?B, allocs := 3\<rparr>)"
    by (simp add: push_into_def r)
  show ?thesis
    using 1 2 3 by (simp add: build_def read_loop_records records_single process_line_user_alice)
qed

lemma build_settings_refused:
  "build (\<lambda>k. k \<noteq> 1) ''user=alice'' =
     Some \<lparr>plugin_args = empty_array, settings = empty_array,
           user_info = \<lparr>entries = Some (Ptr ''user=alice'' # NullPtr # replicate 126 Garbage),
                         len = 1, asize = 128\<rparr>,
           argv = empty_array, env_add = empty_array, allocs = 3\<rparr>"
proof -
  let ?A = "\<lparr>entries = Some (NullPtr # replicate 127 Garbage), len = 0, asize = 128\<rparr>"
  let ?B = "\<lparr>entries = Some (Ptr ''user=alice'' # NullPtr # replicate 126 Garbage), len = 1, asize = 128\<rparr>"
  let ?c1 = "\<lparr>plugin_args = empty_array, settings = empty_array, user_info = ?A,
           argv = empty_array, env_add = empty_array, allocs = 1\<rparr>"
  let ?c2 = "\<lparr>plugin_args = empty_array, settings = empty_array, user_info = ?A,
           argv = empty_array, env_add = empty_array, allocs = 2\<rparr>"
  have 1: "push_into (\<lambda>k. k \<noteq> 1) User_info init_collections None = Some ?c1"
    by (simp add: push_into_def push_null_empty init_collections_def)
  have 2: "push_into (\<lambda>k. k \<noteq> 1) Settings ?c1 None = Some ?c2"
    by (simp add: push_into_def push_null_empty)
  have r: "push (\<lambda>k. k \<noteq> 1) 2 ?A (Some ''user=alice'') = Some (True, ?B, 3)"
    using push_str_room [where ss = "[]" and r = Garbage and rest = "replicate 126 Garbage"
        and s = "''user=alice''" and ok = "\<lambda>k. k \<noteq> 1" and k = 2 and arr = ?A]
    by (simp add: numeral_eq_Suc)
  have 3: "push_into (\<lambda>k. k \<noteq> 1) User_info ?c2 (Some ''user=alice'') = Some (?c2\<lparr>user_info := ?B, allocs := 3\<rparr>)"
    using r by (simp add: push_into_def)
  show ?thesis
    using 1 2 3 by (simp add: build_def read_loop_records records_single process_line_user_alice)
qed

lemma default_command:
  assumes "\<forall>j. ok j" "lines_for Argv data = []"
  shows "\<exists>s u p rest.
     LLVMFuzzerTestOneInput True ok plugin data = Some (Policy_open s u p (policy_open plugin s u p) # rest) \<and>
     (policy_open plugin s u p = 1 \<longrightarrow>
        (\<exists>buf e rest'. rest = Policy_check 1 (Some buf) e # rest' \<and> strvec buf = Some [''/usr/bin/id'']))"
proof -
  from build_result [of ok data] obtain c3 where b: "build ok data = Some c3" and w: "wf_collections c3"
    and c: "\<forall>t. subseq (contents (get_array t c3)) (lines_for t data)"
    by blast
  from c [rule_format, of Argv] assms(2) have "contents (argv c3) = []" by simp
  moreover from w have "wf_array (argv c3)" by (simp add: wf_collections_def)
  ultimately have l0: "len (argv c3) = 0" using wf_array_vec(2) by fastforce
  let ?s = "entries (settings c3)" and ?u = "entries (user_info c3)" and ?p = "entries (plugin_args c3)"
  let ?r = "policy_open plugin ?s ?u ?p"
  from harness_trace [of ok data plugin] b obtain evs c4 frees where
    d: "drive ok plugin ?r c3 = Some (evs, c4)" and
    l: "LLVMFuzzerTestOneInput True ok plugin data = Some (Policy_open ?s ?u ?p ?r # evs @ frees)"
    by auto
  have "?r = 1 \<longrightarrow> (\<exists>buf e rest'. evs @ frees = Policy_check 1 (Some buf) e # rest' \<and>
          strvec buf = Some [''/usr/bin/id''])"
  proof
    assume r: "?r = 1"
    from drive_one [OF w, of ok plugin] d r l0 assms(1) have
      e: "evs = Policy_check (int_of_size (len (argv c4))) (entries (argv c4)) (entries (env_add c4)) # close_call plugin"
      and w4: "wf_collections c4"
      and t: "terminated (argv c4)" and c4: "contents (argv c4) = [''/usr/bin/id'']"
      by auto
    from terminated_vec [OF t] c4 obtain buf where buf: "entries (argv c4) = Some buf"
      "strvec buf = Some [''/usr/bin/id'']" by auto
    from w4 have "wf_array (argv c4)" by (simp add: wf_collections_def)
    from wf_array_vec(2) [OF this] c4 have "len (argv c4) = Suc 0" by simp
    with e buf show "\<exists>buf e rest'. evs @ frees = Policy_check 1 (Some buf) e # rest' \<and>
          strvec buf = Some [''/usr/bin/id'']"
      by simp
  qed
  with l show ?thesis by blast
qed

lemma vectors_present:
  assumes "ok 0" "ok (Suc 0)"
  shows "\<exists>bs bu p r rest ss us.
     LLVMFuzzerTestOneInput True ok plugin data = Some (Policy_open (Some bs) (Some bu) p r # rest) \<and>
     bs \<noteq> [] \<and> bu \<noteq> [] \<and> strvec bs = Some ss \<and> strvec bu = Some us \<and>
     (lines_for Settings data = [] \<longrightarrow> ss = []) \<and> (lines_for User_info data = [] \<longrightarrow> us = [])"
proof -
  from build_result [of ok data] assms obtain c3 where b: "build ok data = Some c3"
    and c: "\<forall>t. subseq (contents (get_array t c3)) (lines_for t data)"
    and t: "terminated (user_info c3)" "terminated (settings c3)"
    by blast
  from terminated_vec [OF t(1)] obtain bu where bu: "entries (user_info c3) = Some bu"
    "strvec bu = Some (contents (user_info c3))" by blast
  from terminated_vec [OF t(2)] obtain bs where bs: "entries (settings c3) = Some bs"
    "strvec bs = Some (contents (settings c3))" by blast
  from bu(2) bs(2) have ne: "bs \<noteq> []" "bu \<noteq> []" by auto
  from c [rule_format, of Settings] have s0: "lines_for Settings data = [] \<longrightarrow> contents (settings c3) = []"
    by auto
  from c [rule_format, of User_info] have u0: "lines_for User_info data = [] \<longrightarrow> contents (user_info c3) = []"
    by auto
  from harness_trace [of ok data plugin] b bu(1) bs(1) obtain r rest where
    "LLVMFuzzerTestOneInput True ok plugin data = Some (Policy_open (Some bs) (Some bu) (entries (plugin_args c3)) r # rest)"
    by auto
  with ne bu(2) bs(2) s0 u0 show ?thesis by blast
qed

section \<open>The claims\<close>

text \<open>
  C1, as the code has it. A push returns false exactly when one of the allocation requests
  it makes is refused, and then it leaves its array as it was. No call site looks at that
  result: the harness goes on with the remaining lines and calls the plugin's \<open>open\<close> in
  every iteration whose stream opened, as the first event. The vectors it hands over read
  as exactly the lines classified for them whose push succeeded, in the order of the input;
  a line whose push failed is missing, the lines after it are not. So they are a
  subsequence of the classified lines, and all of them when no request was refused.
\<close>

theorem open_despite_failed_push:
  "(\<exists>s u p rest.
      LLVMFuzzerTestOneInput True ok plugin data = Some (Policy_open s u p (policy_open plugin s u p) # rest) \<and>
      vec_holds s (pushed ok data Settings) \<and> vec_holds u (pushed ok data User_info) \<and>
      vec_holds p (pushed ok data Plugin_args)) \<and>
   (\<forall>t. subseq (pushed ok data t) (lines_for t data) \<and>
        ((\<forall>j. ok j) \<longrightarrow> pushed ok data t = lines_for t data)) \<and>
   (\<forall>arr k e. wf_array arr \<longrightarrow>
      (\<exists>r arr' k'. push ok k arr e = Some (r, arr', k') \<and>
         abs_push ok k (contents arr, asize arr) e = (r, (contents arr', asize arr'), k') \<and>
         r = (\<forall>j. k \<le> j \<and> j < k' \<longrightarrow> ok j) \<and> (\<not> r \<longrightarrow> arr' = arr)))"
proof (intro conjI allI impI)
  from build_result [of ok data] obtain c3 where b: "build ok data = Some c3" and w: "wf_collections c3"
    by blast
  from w have wa: "wf_array (settings c3)" "wf_array (user_info c3)" "wf_array (plugin_args c3)"
    by (simp_all add: wf_collections_def)
  have v: "vec_holds (entries (settings c3)) (pushed ok data Settings)"
    "vec_holds (entries (user_info c3)) (pushed ok data User_info)"
    "vec_holds (entries (plugin_args c3)) (pushed ok data Plugin_args)"
    using wf_array_vec(1) [OF wa(1)] wf_array_vec(1) [OF wa(2)] wf_array_vec(1) [OF wa(3)]
      pushed_contents [OF b, of Settings] pushed_contents [OF b, of User_info]
      pushed_contents [OF b, of Plugin_args]
    by simp_all
  from harness_trace [of ok data plugin] b obtain rest where
    "LLVMFuzzerTestOneInput True ok plugin data =
       Some (Policy_open (entries (settings c3)) (entries (user_info c3)) (entries (plugin_args c3))
          (policy_open plugin (entries (settings c3)) (entries (user_info c3)) (entries (plugin_args c3))) # rest)"
    by auto
  with v show "\<exists>s u p rest.
      LLVMFuzzerTestOneInput True ok plugin data = Some (Policy_open s u p (policy_open plugin s u p) # rest) \<and>
      vec_holds s (pushed ok data Settings) \<and> vec_holds u (pushed ok data User_info) \<and>
      vec_holds p (pushed ok data Plugin_args)"
    by blast
next
  fix t
  from build_result [of ok data] obtain c3 where b: "build ok data = Some c3"
    and c: "\<forall>t. subseq (contents (get_array t c3)) (lines_for t data) \<and>
             ((\<forall>j. ok j) \<longrightarrow> contents (get_array t c3) = lines_for t data)"
    by blast
  from c [rule_format, of t] pushed_contents [OF b, of t]
  show "subseq (pushed ok data t) (lines_for t data)" by simp
next
  fix t
  assume a: "\<forall>j. ok j"
  from build_result [of ok data] obtain c3 where b: "build ok data = Some c3"
    and c: "\<forall>t. subseq (contents (get_array t c3)) (lines_for t data) \<and>
             ((\<forall>j. ok j) \<longrightarrow> contents (get_array t c3) = lines_for t data)"
    by blast
  from c [rule_format, of t] a pushed_contents [OF b, of t]
  show "pushed ok data t = lines_for t data" by simp
next
  fix arr k e
  assume w: "wf_array arr"
  from push_refines [OF w, of ok k e] obtain r arr' k' where
    p: "push ok k arr e = Some (r, arr', k')" and
    a: "abs_push ok k (abs_array_of arr) e = (r, abs_array_of arr', k')" and
    u: "\<not> r \<longrightarrow> arr' = arr"
    by (auto split: option.splits)
  from abs_push_result(1) [OF a] have r: "r = (\<forall>j. k \<le> j \<and> j < k' \<longrightarrow> ok j)" .
  from p a r u show "\<exists>r arr' k'. push ok k arr e = Some (r, arr', k') \<and>
         abs_push ok k (contents arr, asize arr) e = (r, (contents arr', asize arr'), k') \<and>
         r = (\<forall>j. k \<le> j \<and> j < k' \<longrightarrow> ok j) \<and> (\<not> r \<longrightarrow> arr' = arr)"
    unfolding abs_array_of_def by blast
qed

theorem open_despite_failed_push_witness:
  "(\<exists>s u p rest.
      LLVMFuzzerTestOneInput True (\<lambda>k. k \<noteq> 2) \<lparr>policy_open = (\<lambda>s u p. 0), has_close = False\<rparr> two_users
        = Some (Policy_open s u p 0 # rest) \<and>
      vec_holds s [] \<and> vec_holds u [''uid=1000''] \<and> vec_holds p []) \<and>
   lines_for User_info two_users = [''user=alice'', ''uid=1000''] \<and>
   subseq [''uid=1000''] [''user=alice'', ''uid=1000''] \<and>
   wf_array \<lparr>entries = Some (NullPtr # replicate 127 Garbage), len = 0, asize = 128\<rparr> \<and>
   push (\<lambda>k. k \<noteq> 2) 2 \<lparr>entries = Some (NullPtr # replicate 127 Garbage), len = 0, asize = 128\<rparr>
       (Some ''user=alice'')
     = Some (False, \<lparr>entries = Some (NullPtr # replicate 127 Garbage), len = 0, asize = 128\<rparr>, 3)"
proof -
  let ?ok = "\<lambda>k::nat. k \<noteq> 2"
  let ?P = "\<lparr>policy_open = (\<lambda>s u p. 0), has_close = False\<rparr>"
  let ?A = "\<lparr>entries = Some (NullPtr # replicate 127 Garbage), len = 0, asize = 128\<rparr>"
  note t = open_despite_failed_push [of ?ok ?P two_users]
  from t [THEN conjunct1] have a: "\<exists>s u p rest.
      LLVMFuzzerTestOneInput True ?ok ?P two_users = Some (Policy_open s u p 0 # rest) \<and>
      vec_holds s [] \<and> vec_holds u [''uid=1000''] \<and> vec_holds p []"
    by (simp add: pushed_two_users)
  from t [THEN conjunct2, THEN conjunct1, rule_format, of User_info]
  have s: "subseq [''uid=1000''] [''user=alice'', ''uid=1000'']"
    by (simp add: pushed_two_users lines_for_two_users)
  have w: "wf_array ?A" using terminated_null_start by (simp add: wf_array_def)
  from t [THEN conjunct2, THEN conjunct2, rule_format, OF w, of 2 "Some ''user=alice''"]
  obtain r arr' k' where p: "push ?ok 2 ?A (Some ''user=alice'') = Some (r, arr', k')"
    and q: "abs_push ?ok 2 (contents ?A, asize ?A) (Some ''user=alice'') = (r, (contents arr', asize arr'), k')"
    and u: "\<not> r \<longrightarrow> arr' = ?A"
    by blast
  from q have "r = False \<and> k' = 3" by (simp add: abs_push_def)
  with p u have p': "push ?ok 2 ?A (Some ''user=alice'') = Some (False, ?A, 3)" by simp
  from a lines_for_two_users s w p' show ?thesis by (intro conjI)
qed

text \<open>
  C1 as stated fails. When every allocation of \<open>push\<close> fails, the first push returns
  false, and on the input \<open>user=alice\<close> the harness still calls \<open>open\<close>, with three
  null vectors. When the two initial pushes succeed and the \<^verbatim>\<open>strdup\<close> of the line
  fails, that push returns false and the harness calls \<open>open\<close> with a \<open>user_info\<close>
  vector that lacks the line.
\<close>

theorem failed_push_reaches_open:
  "push (\<lambda>k. False) 0 empty_array None = Some (False, empty_array, 1) \<and>
   LLVMFuzzerTestOneInput True (\<lambda>k. False) \<lparr>policy_open = (\<lambda>s u p. 0), has_close = False\<rparr> ''user=alice''
     = Some [Policy_open None None None 0] \<and>
   push (\<lambda>k. k < 2) 2 \<lparr>entries = Some (NullPtr # replicate 127 Garbage), len = 0, asize = 128\<rparr>
       (Some ''user=alice'')
     = Some (False, \<lparr>entries = Some (NullPtr # replicate 127 Garbage), len = 0, asize = 128\<rparr>, 3) \<and>
   LLVMFuzzerTestOneInput True (\<lambda>k. k < 2) \<lparr>policy_open = (\<lambda>s u p. 0), has_close = False\<rparr> ''user=alice''
     = Some [Policy_open (Some (NullPtr # replicate 127 Garbage)) (Some (NullPtr # replicate 127 Garbage)) None 0,
             Free_buffer, Free_buffer]"
proof -
  have r: "push (\<lambda>k. k < 2) 2 \<lparr>entries = Some (NullPtr # replicate 127 Garbage), len = 0, asize = 128\<rparr>
       (Some ''user=alice'')
     = Some (False, \<lparr>entries = Some (NullPtr # replicate 127 Garbage), len = 0, asize = 128\<rparr>, 3)"
    using push_str_room [where ss = "[]" and r = Garbage and rest = "replicate 126 Garbage"
        and s = "''user=alice''" and ok = "\<lambda>k. k < 2" and k = 2
        and arr = "\<lparr>entries = Some (NullPtr # replicate 127 Garbage), len = 0, asize = 128\<rparr>"]
    by (simp add: numeral_eq_Suc)
  have p: "push (\<lambda>k. False) 0 empty_array None = Some (False, empty_array, 1)"
    by (simp add: push_null_empty)
  from p run_all_fail r run_strdup_fails show ?thesis by (intro conjI)
qed




text \<open>
  C3. Whenever the input stream opens, the first event of the iteration is the call of the
  plugin's \<open>open\<close>. If it returns a value other than 0 and 1, no call of \<open>close\<close> follows.
  If it returns 0 or 1, the calls of \<open>close\<close> that follow are exactly one call with exit
  status 0 and signal 0 when the plugin has a \<open>close\<close> member, and none when it has not.
\<close>

theorem close_after_open:
  "\<exists>s u p rest.
     LLVMFuzzerTestOneInput True ok plugin data = Some (Policy_open s u p (policy_open plugin s u p) # rest) \<and>
     (policy_open plugin s u p \<noteq> 0 \<and> policy_open plugin s u p \<noteq> 1 \<longrightarrow> close_calls rest = []) \<and>
     (policy_open plugin s u p = 0 \<or> policy_open plugin s u p = 1 \<longrightarrow>
        close_calls rest = (if has_close plugin then [Policy_close 0 0] else []))"
proof -
  from harness_trace [of ok data plugin] obtain c3 evs c4 frees where
    b: "build ok data = Some c3" and
    d: "drive ok plugin (policy_open plugin (entries (settings c3)) (entries (user_info c3))
                        (entries (plugin_args c3))) c3 = Some (evs, c4)" and
    f: "filter is_plugin_call frees = []" and
    l: "LLVMFuzzerTestOneInput True ok plugin data =
        Some (Policy_open (entries (settings c3)) (entries (user_info c3)) (entries (plugin_args c3))
               (policy_open plugin (entries (settings c3)) (entries (user_info c3))
                  (entries (plugin_args c3))) # evs @ frees)"
    by blast
  let ?r = "policy_open plugin (entries (settings c3)) (entries (user_info c3)) (entries (plugin_args c3))"
  from build_grows [of ok data] b have w: "wf_collections c3" by (auto simp: grows_def)
  note nf = no_calls_no_close [OF f]
  have 1: "?r \<noteq> 0 \<and> ?r \<noteq> 1 \<longrightarrow> close_calls (evs @ frees) = []"
    using d nf by (auto simp: drive_other close_calls_def)
  have 2: "?r = 0 \<longrightarrow> close_calls (evs @ frees) = close_call plugin"
    using d nf by (auto simp: drive_zero close_calls_def)
  have 3: "?r = 1 \<longrightarrow> close_calls (evs @ frees) = close_call plugin"
  proof
    assume r: "?r = 1"
    from drive_one [OF w, of ok plugin] d r obtain n a e where "evs = Policy_check n a e # close_call plugin"
      by auto
    with nf show "close_calls (evs @ frees) = close_call plugin"
      by (simp add: close_calls_def)
  qed
  from 2 3 have 4: "?r = 0 \<or> ?r = 1 \<longrightarrow>
      close_calls (evs @ frees) = (if has_close plugin then [Policy_close 0 0] else [])"
    by (auto simp: close_call_def)
  from l 1 4 show ?thesis by blast
qed

theorem close_after_open_witness:
  "(\<exists>s u p rest.
      LLVMFuzzerTestOneInput True (\<lambda>k. True) \<lparr>policy_open = (\<lambda>s u p. 0), has_close = True\<rparr> ''user=alice''
        = Some (Policy_open s u p 0 # rest) \<and>
      close_calls rest = [Policy_close 0 0]) \<and>
   (\<exists>s u p rest.
      LLVMFuzzerTestOneInput True (\<lambda>k. True) \<lparr>policy_open = (\<lambda>s u p. - 1), has_close = True\<rparr> ''user=alice''
        = Some (Policy_open s u p (- 1) # rest) \<and>
      close_calls rest = [])"
proof -
  have a: "\<exists>s u p rest.
      LLVMFuzzerTestOneInput True (\<lambda>k. True) \<lparr>policy_open = (\<lambda>s u p. 0), has_close = True\<rparr> ''user=alice''
        = Some (Policy_open s u p 0 # rest) \<and>
      close_calls rest = [Policy_close 0 0]"
    using close_after_open [of "\<lambda>k. True" "\<lparr>policy_open = (\<lambda>s u p. 0), has_close = True\<rparr>" "''user=alice''"]
    by simp
  have b: "\<exists>s u p rest.
      LLVMFuzzerTestOneInput True (\<lambda>k. True) \<lparr>policy_open = (\<lambda>s u p. - 1), has_close = True\<rparr> ''user=alice''
        = Some (Policy_open s u p (- 1) # rest) \<and>
      close_calls rest = []"
    using close_after_open [of "\<lambda>k. True" "\<lparr>policy_open = (\<lambda>s u p. - 1), has_close = True\<rparr>" "''user=alice''"]
    by simp
  from a b show ?thesis by (rule conjI)
qed

text \<open>
  C4. On every well-formed array (a fresh one, or one that earlier pushes left terminated),
  after \<open>N \<ge> 1\<close> successful pushes of the non-null entries \<open>es\<close> the length has grown by
  \<open>N\<close>, the first \<open>len\<close> slots of the buffer are the strings held before followed by
  \<open>es\<close>, in order, slot \<open>len\<close> is the null pointer and lies inside the buffer. Every
  push, of a string or of a null entry, runs without undefined behaviour; when it returns true
  the array is terminated, and when it returns false the array is as it was.
\<close>

theorem push_sentinel:
  assumes "wf_array arr"
  shows "(\<forall>es rs arr' k'. push_all ok k arr (map Some es) = Some (rs, arr', k') \<and> (\<forall>b \<in> set rs. b) \<and> es \<noteq> [] \<longrightarrow>
            len arr' = len arr + length es \<and>
            (\<exists>buf. entries arr' = Some buf \<and> length buf = asize arr' \<and> len arr' < asize arr' \<and>
                   take (len arr') buf = map Ptr (contents arr @ es) \<and> buf ! len arr' = NullPtr))
       \<and> (\<forall>e. \<exists>r arr' k'. push ok k arr e = Some (r, arr', k') \<and> (r \<longrightarrow> terminated arr') \<and> (\<not> r \<longrightarrow> arr' = arr))"
proof (intro conjI allI impI)
  fix es rs arr' k'
  assume a: "push_all ok k arr (map Some es) = Some (rs, arr', k') \<and> (\<forall>b \<in> set rs. b) \<and> es \<noteq> []"
  from a have a1: "push_all ok k arr (map Some es) = Some (rs, arr', k')"
    and a2: "\<forall>b \<in> set rs. b" and a3: "map Some es \<noteq> []" by (blast, blast, simp)
  from push_all_wf [OF assms a1] a2 a3
  have "contents arr' = contents arr @ concat (map entry_list (map Some es))" and t: "terminated arr'"
    by blast+
  then have c: "contents arr' = contents arr @ es"
    by (simp only: concat_entry_list_Some)
  from terminated_slots [OF t] obtain buf where b: "entries arr' = Some buf" "length buf = asize arr'"
    "len arr' < asize arr'" "length (contents arr') = len arr'"
    "take (len arr') buf = map Ptr (contents arr')" "buf ! len arr' = NullPtr" by blast
  have "length (contents arr) = len arr"
  proof (cases "arr = empty_array")
    case True
    then show ?thesis by (simp add: empty_array_def contents_def)
  next
    case False
    with assms have "terminated arr" by (simp add: wf_array_def)
    from terminated_slots [OF this] show ?thesis by blast
  qed
  with b c show "len arr' = len arr + length es" by simp
  from b c show "\<exists>buf. entries arr' = Some buf \<and> length buf = asize arr' \<and> len arr' < asize arr' \<and>
                   take (len arr') buf = map Ptr (contents arr @ es) \<and> buf ! len arr' = NullPtr"
    by simp
next
  fix e
  from push_total [OF assms, of ok k e] obtain r arr' k' where p: "push ok k arr e = Some (r, arr', k')"
    by blast
  from wf_push [OF assms p] p
  show "\<exists>r arr' k'. push ok k arr e = Some (r, arr', k') \<and> (r \<longrightarrow> terminated arr') \<and> (\<not> r \<longrightarrow> arr' = arr)"
    by blast
qed


theorem push_sentinel_witness:
  "wf_array empty_array \<and>
   push_all (\<lambda>_. True) 0 empty_array (map Some [''a'', ''b'']) =
     Some ([True, True],
           \<lparr>entries = Some (Ptr ''a'' # Ptr ''b'' # NullPtr # replicate 125 Garbage), len = 2, asize = 128\<rparr>, 3) \<and>
   [''a'', ''b''] \<noteq> [] \<and>
   len \<lparr>entries = Some (Ptr ''a'' # Ptr ''b'' # NullPtr # replicate 125 Garbage), len = 2, asize = 128\<rparr> = 2 \<and>
   (\<exists>buf. entries \<lparr>entries = Some (Ptr ''a'' # Ptr ''b'' # NullPtr # replicate 125 Garbage), len = 2, asize = 128\<rparr> = Some buf \<and>
      length buf = 128 \<and> take 2 buf = map Ptr [''a'', ''b''] \<and> buf ! 2 = NullPtr) \<and>
   (\<exists>r arr' k'. push (\<lambda>_. True) 0 empty_array None = Some (r, arr', k') \<and> (r \<longrightarrow> terminated arr') \<and> (\<not> r \<longrightarrow> arr' = empty_array))"
proof -
  let ?A = "\<lparr>entries = Some (Ptr ''a'' # Ptr ''b'' # NullPtr # replicate 125 Garbage), len = 2, asize = 128\<rparr>"
  have h: "wf_array empty_array" by (rule wf_empty_array)
  have a: "\<forall>b \<in> set [True, True]. b" by simp
  note t = push_sentinel [OF h, of "\<lambda>_. True" 0]
  from t have t1: "push_all (\<lambda>_. True) 0 empty_array (map Some [''a'', ''b'']) = Some ([True, True], ?A, 3)  \<and> (\<forall>b \<in> set [True, True]. b) \<and> [''a'', ''b''] \<noteq> [] \<longrightarrow>
            len ?A = len empty_array + length [''a'', ''b''] \<and>
            (\<exists>buf. entries ?A = Some buf \<and> length buf = asize ?A \<and> len ?A < asize ?A \<and>
                   take (len ?A) buf = map Ptr (contents empty_array @ [''a'', ''b'']) \<and> buf ! len ?A = NullPtr)"
    by blast
  from t have t2: "\<exists>r arr' k'. push (\<lambda>_. True) 0 empty_array None = Some (r, arr', k') \<and> (r \<longrightarrow> terminated arr') \<and> (\<not> r \<longrightarrow> arr' = empty_array)"
    by blast
  from t1 push_all_example a have "len ?A = len empty_array + length [''a'', ''b''] \<and>
            (\<exists>buf. entries ?A = Some buf \<and> length buf = asize ?A \<and> len ?A < asize ?A \<and>
                   take (len ?A) buf = map Ptr (contents empty_array @ [''a'', ''b'']) \<and> buf ! len ?A = NullPtr)"
    by blast
  then have "len ?A = 2 \<and> (\<exists>buf. entries ?A = Some buf \<and>
      length buf = 128 \<and> take 2 buf = map Ptr [''a'', ''b''] \<and> buf ! 2 = NullPtr)"
    by (simp add: empty_array_def)
  with h push_all_example a t2 show ?thesis by blast
qed

text \<open>
  C5. Let \<open>line_of raw\<close> be the C string the loop body sees for a record. It is discarded
  exactly when it is empty or begins with \<open>#\<close>, and then the arrays stay as they are.
  Otherwise, when no allocation fails, the line is appended to the array \<open>classify\<close> names
  and the four other arrays are unchanged. \<open>classify\<close> is the first match in the table of
  keys, by byte-exact prefix: a line beginning \<open>user=\<close> or \<open>uid=\<close> goes to
  \<open>user_info\<close>, a line beginning \<open>argv=\<close> to \<open>argv\<close>, a line that no key of the table
  begins goes to \<open>settings\<close>. A record that begins with a key gives a line that begins with
  that key.
\<close>

theorem classification:
  assumes "wf_collections c"
  shows "(discarded (line_of raw) \<longleftrightarrow> line_of raw = [] \<or> prefix ''#'' (line_of raw)) \<and>
         (discarded (line_of raw) \<longrightarrow> process_line ok c raw = Some c) \<and>
         (\<not> discarded (line_of raw) \<and> (\<forall>j. ok j) \<longrightarrow>
            (\<exists>c'. process_line ok c raw = Some c' \<and>
                  contents (get_array (classify (line_of raw)) c') =
                    contents (get_array (classify (line_of raw)) c) @ [line_of raw] \<and>
                  (\<forall>t. t \<noteq> classify (line_of raw) \<longrightarrow> get_array t c' = get_array t c))) \<and>
         classify l = classify_by_table l \<and>
         (prefix ''user='' l \<or> prefix ''uid='' l \<longrightarrow> classify l = User_info) \<and>
         (prefix ''argv='' l \<longrightarrow> classify l = Argv) \<and>
         ((\<forall>key \<in> fst ` set prefix_table. \<not> prefix key l) \<longrightarrow> classify l = Settings) \<and>
         (\<forall>key \<in> fst ` set prefix_table. prefix key raw \<longrightarrow> prefix key (line_of raw))"
proof (intro conjI)
  show "discarded (line_of raw) \<longleftrightarrow> line_of raw = [] \<or> prefix ''#'' (line_of raw)"
    using line_of_no_NUL by (rule discarded_iff)
  show "discarded (line_of raw) \<longrightarrow> process_line ok c raw = Some c"
    by (simp add: process_line_def line_of_def discarded_def Let_def)
  show "\<not> discarded (line_of raw) \<and> (\<forall>j. ok j) \<longrightarrow>
            (\<exists>c'. process_line ok c raw = Some c' \<and>
                  contents (get_array (classify (line_of raw)) c') =
                    contents (get_array (classify (line_of raw)) c) @ [line_of raw] \<and>
                  (\<forall>t. t \<noteq> classify (line_of raw) \<longrightarrow> get_array t c' = get_array t c))"
  proof
    assume a: "\<not> discarded (line_of raw) \<and> (\<forall>j. ok j)"
    let ?t = "classify (line_of raw)"
    from a have p: "process_line ok c raw = push_into ok ?t c (Some (line_of raw))"
      by (simp add: process_line_def line_of_def discarded_def Let_def)
    from assms obtain c' where c': "push_into ok ?t c (Some (line_of raw)) = Some c'"
      "\<forall>t'. t' \<noteq> ?t \<longrightarrow> get_array t' c' = get_array t' c"
      "(terminated (get_array ?t c') \<and>
          contents (get_array ?t c') = contents (get_array ?t c) @ entry_list (Some (line_of raw)))
       \<or> (get_array ?t c' = get_array ?t c \<and> (\<exists>j. allocs c \<le> j \<and> j < allocs c' \<and> \<not> ok j))"
      by (rule push_into_step [where ok = ok and t = ?t and e = "Some (line_of raw)"]) blast
    from c'(3) a have "contents (get_array ?t c') = contents (get_array ?t c) @ [line_of raw]"
      by (auto simp: entry_list_def)
    with p c'(1,2) show "\<exists>c'. process_line ok c raw = Some c' \<and>
                  contents (get_array ?t c') = contents (get_array ?t c) @ [line_of raw] \<and>
                  (\<forall>t. t \<noteq> ?t \<longrightarrow> get_array t c' = get_array t c)"
      by simp
  qed
  show "classify l = classify_by_table l" by (rule classify_table)
  show "prefix ''user='' l \<or> prefix ''uid='' l \<longrightarrow> classify l = User_info"
  proof
    assume a: "prefix ''user='' l \<or> prefix ''uid='' l"
    then obtain l' where l: "l = CHR ''u'' # l'" by (cases l) auto
    from a show "classify l = User_info" unfolding l by (auto simp: classify_prefix)
  qed
  show "prefix ''argv='' l \<longrightarrow> classify l = Argv"
  proof
    assume a: "prefix ''argv='' l"
    then obtain l' where l: "l = CHR ''a'' # l'" by (cases l) auto
    from a show "classify l = Argv" unfolding l by (simp add: classify_prefix)
  qed
  show "(\<forall>key \<in> fst ` set prefix_table. \<not> prefix key l) \<longrightarrow> classify l = Settings"
    by (simp add: classify_prefix prefix_table_def)
  show "\<forall>key \<in> fst ` set prefix_table. prefix key raw \<longrightarrow> prefix key (line_of raw)"
  proof (intro ballI impI)
    fix key assume k: "key \<in> fst ` set prefix_table" and p: "prefix key raw"
    from k have "NUL \<notin> set key \<and> newline \<notin> set key"
      by (auto simp: prefix_table_def NUL_def newline_def)
    with p show "prefix key (line_of raw)" by (simp add: line_of_prefix)
  qed
qed

theorem classification_witness:
  "wf_collections init_collections \<and>
   \<not> discarded (line_of (''user=alice'' @ [newline])) \<and>
   (\<exists>c'. process_line (\<lambda>k. True) init_collections (''user=alice'' @ [newline]) = Some c' \<and>
         contents (user_info c') = [''user=alice''] \<and>
         settings c' = empty_array \<and> argv c' = empty_array \<and> plugin_args c' = empty_array \<and>
         env_add c' = empty_array) \<and>
   prefix ''uid='' ''uid=1000'' \<and> classify ''uid=1000'' = User_info \<and>
   prefix ''argv='' ''argv=/bin/ls'' \<and> classify ''argv=/bin/ls'' = Argv \<and>
   classify ''foo=bar'' = Settings \<and>
   discarded (line_of (''# comment'' @ [newline])) \<and>
   process_line (\<lambda>k. True) init_collections (''# comment'' @ [newline]) = Some init_collections \<and>
   discarded (line_of [newline]) \<and>
   process_line (\<lambda>k. True) init_collections [newline] = Some init_collections"
proof -
  note w = wf_init
  note t1 = classification [OF w, of "''user=alice'' @ [newline]" "\<lambda>k. True" "''uid=1000''"]
  note t2 = classification [OF w, of "''# comment'' @ [newline]" "\<lambda>k. True" "''argv=/bin/ls''"]
  note t3 = classification [OF w, of "[newline]" "\<lambda>k. True" "''foo=bar''"]
  have nd: "\<not> discarded (line_of (''user=alice'' @ [newline]))"
    unfolding line_of_examples by (rule discarded_examples)
  have c: "classify (line_of (''user=alice'' @ [newline])) = User_info"
    unfolding line_of_examples by (rule classify_examples)
  from t1 [THEN conjunct2, THEN conjunct2, THEN conjunct1] nd
  have "\<exists>c'. process_line (\<lambda>k. True) init_collections (''user=alice'' @ [newline]) = Some c' \<and>
         contents (get_array User_info c') = contents (get_array User_info init_collections) @ [''user=alice''] \<and>
         (\<forall>t. t \<noteq> User_info \<longrightarrow> get_array t c' = get_array t init_collections)"
    by (simp add: line_of_examples [simplified] classify_examples)
  then obtain c' where c': "process_line (\<lambda>k. True) init_collections (''user=alice'' @ [newline]) = Some c'"
    "contents (get_array User_info c') = contents (get_array User_info init_collections) @ [''user=alice'']"
    "\<forall>t. t \<noteq> User_info \<longrightarrow> get_array t c' = get_array t init_collections"
    by blast
  from c'(3) [rule_format, of Settings] c'(3) [rule_format, of Argv] c'(3) [rule_format, of Plugin_args]
    c'(3) [rule_format, of Env_add] c'(2)
  have "contents (user_info c') = [''user=alice''] \<and>
         settings c' = empty_array \<and> argv c' = empty_array \<and> plugin_args c' = empty_array \<and>
         env_add c' = empty_array"
    by (simp add: init_collections_def)
  with c'(1) have e: "\<exists>c'. process_line (\<lambda>k. True) init_collections (''user=alice'' @ [newline]) = Some c' \<and>
         contents (user_info c') = [''user=alice''] \<and>
         settings c' = empty_array \<and> argv c' = empty_array \<and> plugin_args c' = empty_array \<and>
         env_add c' = empty_array"
    by blast
  have p1: "prefix ''uid='' ''uid=1000''" by simp
  have p2: "prefix ''argv='' ''argv=/bin/ls''" by simp
  from t1 [THEN conjunct2, THEN conjunct2, THEN conjunct2, THEN conjunct2, THEN conjunct1] p1
  have u: "classify ''uid=1000'' = User_info" by blast
  from t2 [THEN conjunct2, THEN conjunct2, THEN conjunct2, THEN conjunct2, THEN conjunct2, THEN conjunct1] p2
  have a: "classify ''argv=/bin/ls'' = Argv" by blast
  have "\<forall>key \<in> fst ` set prefix_table. \<not> prefix key ''foo=bar''"
    by (simp add: prefix_table_def)
  with t3 [THEN conjunct2, THEN conjunct2, THEN conjunct2, THEN conjunct2, THEN conjunct2, THEN conjunct2,
      THEN conjunct1]
  have f: "classify ''foo=bar'' = Settings" by blast
  have d2: "discarded (line_of (''# comment'' @ [newline]))"
    unfolding line_of_examples by (rule discarded_examples)
  from t2 [THEN conjunct2, THEN conjunct1] d2
  have s2: "process_line (\<lambda>k. True) init_collections (''# comment'' @ [newline]) = Some init_collections"
    by blast
  have d3: "discarded (line_of [newline])"
    unfolding line_of_examples by (rule discarded_examples)
  from t3 [THEN conjunct2, THEN conjunct1] d3
  have s3: "process_line (\<lambda>k. True) init_collections [newline] = Some init_collections"
    by blast
  from w nd e p1 u p2 a f d2 s2 d3 s3 show ?thesis by (intro conjI)
qed

text \<open>
  C6 fails on the code where the push of the default command fails. On the input
  \<open>user=alice\<close>, which has no \<open>argv=\<close> line, with a plugin whose \<open>open\<close> returns 1 and an
  allocator that refuses the fourth request (the \<^verbatim>\<open>strdup\<close> of \<open>/usr/bin/id\<close>), the
  harness drops the false that \<open>push\<close> returns and calls \<open>check_policy\<close> with
  \<open>argc = 0\<close> and a null \<open>argv\<close>, against its own comment that there must be a command
  to check. When no request is refused the claim holds (\<open>default_command\<close>).
\<close>

theorem check_policy_without_command:
  "lines_for Argv ''user=alice'' = [] \<and>
   LLVMFuzzerTestOneInput True (\<lambda>k. k < 3) \<lparr>policy_open = (\<lambda>s u p. 1), has_close = True\<rparr> ''user=alice'' =
     Some [Policy_open (Some (NullPtr # replicate 127 Garbage))
             (Some (Ptr ''user=alice'' # NullPtr # replicate 126 Garbage)) None 1,
           Policy_check 0 None None,
           Policy_close 0 0, Free_buffer, Free_string ''user=alice'', Free_buffer]"
proof -
  have d: "drive (\<lambda>k. k < 3) \<lparr>policy_open = (\<lambda>s u p. 1), has_close = True\<rparr> 1
             \<lparr>plugin_args = empty_array,
              settings = \<lparr>entries = Some (NullPtr # replicate 127 Garbage), len = 0, asize = 128\<rparr>,
              user_info = \<lparr>entries = Some (Ptr ''user=alice'' # NullPtr # replicate 126 Garbage),
                            len = 1, asize = 128\<rparr>,
              argv = empty_array, env_add = empty_array, allocs = 3\<rparr> =
           Some ([Policy_check 0 None None, Policy_close 0 0],
             \<lparr>plugin_args = empty_array,
              settings = \<lparr>entries = Some (NullPtr # replicate 127 Garbage), len = 0, asize = 128\<rparr>,
              user_info = \<lparr>entries = Some (Ptr ''user=alice'' # NullPtr # replicate 126 Garbage),
                            len = 1, asize = 128\<rparr>,
              argv = empty_array, env_add = empty_array, allocs = 4\<rparr>)"
  proof -
    have pp: "push (\<lambda>k. k < 3) 3 empty_array (Some ''/usr/bin/id'') = Some (False, empty_array, 4)"
      by (simp add: push_str_empty)
    have z: "len empty_array = 0" "entries empty_array = None" by (simp_all add: empty_array_def)
    show ?thesis using pp by (simp add: drive_def push_into_def int_of_size_def z)
  qed
  have "LLVMFuzzerTestOneInput True (\<lambda>k. k < 3) \<lparr>policy_open = (\<lambda>s u p. 1), has_close = True\<rparr> ''user=alice'' =
     Some [Policy_open (Some (NullPtr # replicate 127 Garbage))
             (Some (Ptr ''user=alice'' # NullPtr # replicate 126 Garbage)) None 1,
           Policy_check 0 None None,
           Policy_close 0 0, Free_buffer, Free_string ''user=alice'', Free_buffer]"
    using d by (simp add: LLVM_build build_no_room_for_id cleanup_def free_dynamic_array_def empty_array_def)
  with lines_for_single(3) show ?thesis by (rule conjI)
qed

text \<open>
  C7 fails on the code where an initial push fails. With an allocator that refuses the
  second request (the \<^verbatim>\<open>reallocarray\<close> of \<^verbatim>\<open>push(&settings, NULL)\<close>), that push returns
  false, the harness drops the result and calls \<open>open\<close> with a null \<open>settings\<close> vector,
  against its own comment that \<open>user_info\<close> and \<open>settings\<close> must be non-null. When the two
  initial requests are granted the claim holds (\<open>vectors_present\<close>).
\<close>

theorem open_with_null_settings:
  "push (\<lambda>k. k \<noteq> 1) 1 empty_array None = Some (False, empty_array, 2) \<and>
   LLVMFuzzerTestOneInput True (\<lambda>k. k \<noteq> 1) \<lparr>policy_open = (\<lambda>s u p. 0), has_close = False\<rparr> ''user=alice'' =
     Some [Policy_open None (Some (Ptr ''user=alice'' # NullPtr # replicate 126 Garbage)) None 0,
           Free_string ''user=alice'', Free_buffer]"
proof -
  have p: "push (\<lambda>k. k \<noteq> 1) 1 empty_array None = Some (False, empty_array, 2)"
    by (simp add: push_null_empty)
  have "LLVMFuzzerTestOneInput True (\<lambda>k. k \<noteq> 1) \<lparr>policy_open = (\<lambda>s u p. 0), has_close = False\<rparr> ''user=alice'' =
     Some [Policy_open None (Some (Ptr ''user=alice'' # NullPtr # replicate 126 Garbage)) None 0,
           Free_string ''user=alice'', Free_buffer]"
    using build_settings_refused
    by (simp add: LLVM_build drive_zero close_call_def cleanup_def free_dynamic_array_def empty_array_def)
  with p show ?thesis by (rule conjI)
qed

text \<open>
  C8, as the code has it. Let the caller pass at least \<open>num_msgs\<close> messages. If one of them
  asks for input (its type is the echo-on, the masked or the echo-off prompt), the callback
  returns \<open>-1\<close>, whatever the streams do. When the streams take every byte, the callback
  handles the messages in order up to the first one that is neither informational nor an
  error message (a prompt or an unknown type): each informational message before it is
  written on standard output and each error message before it on standard error, followed
  by a newline, except that a message whose text is null or empty is skipped, and for it
  nothing is written, not even the newline. The callback returns \<open>0\<close> if all messages are
  informational or error messages, and \<open>-1\<close> at the first one that is not; what it wrote
  before stays written.
\<close>

theorem fuzz_conversation_messages:
  assumes "valid_consts K" "nat num_msgs \<le> length msgs"
  shows "((\<exists>i < nat num_msgs. requests_input K (msgs ! i)) \<longrightarrow>
            (\<exists>io'. fuzz_conversation K dev num_msgs msgs io = Some (- 1, io'))) \<and>
         (reliable dev \<longrightarrow>
            (\<exists>io'. fuzz_conversation K dev num_msgs msgs io =
                     Some (if list_all (is_text K) (take (nat num_msgs) msgs) then 0 else - 1, io') \<and>
                out io' = out io @ concat (map rendered (filter (is_info K)
                            (written K (take (nat num_msgs) msgs)))) \<and>
                err io' = err io @ concat (map rendered (filter (is_error K)
                            (written K (take (nat num_msgs) msgs))))))"
proof (intro conjI impI)
  assume "\<exists>i < nat num_msgs. requests_input K (msgs ! i)"
  then have "\<exists>i. nat 0 \<le> i \<and> i < nat num_msgs \<and> requests_input K (msgs ! i)" by simp
  from conv_loop_prompt [OF _ assms(2) this, of dev io]
  show "\<exists>io'. fuzz_conversation K dev num_msgs msgs io = Some (- 1, io')"
    by (simp add: fuzz_conversation_def)
next
  assume r: "reliable dev"
  from conv_loop_written [OF assms(1) r _ assms(2), of 0 io]
  show "\<exists>io'. fuzz_conversation K dev num_msgs msgs io =
                     Some (if list_all (is_text K) (take (nat num_msgs) msgs) then 0 else - 1, io') \<and>
                out io' = out io @ concat (map rendered (filter (is_info K)
                            (written K (take (nat num_msgs) msgs)))) \<and>
                err io' = err io @ concat (map rendered (filter (is_error K)
                            (written K (take (nat num_msgs) msgs))))"
    by (simp add: fuzz_conversation_def)
qed

theorem fuzz_conversation_messages_witness:
  "valid_consts sudo_plugin_h \<and>
   nat 2 \<le> length [\<lparr>msg_type = 4, msg = Some ''hello''\<rparr>, \<lparr>msg_type = 4097, msg = Some ''Password: ''\<rparr>] \<and>
   reliable (\<lambda>k n. n) \<and>
   requests_input sudo_plugin_h \<lparr>msg_type = 4097, msg = Some ''Password: ''\<rparr> \<and>
   (\<exists>io'. fuzz_conversation sudo_plugin_h (\<lambda>k n. n) 2
            [\<lparr>msg_type = 4, msg = Some ''hello''\<rparr>, \<lparr>msg_type = 4097, msg = Some ''Password: ''\<rparr>]
            \<lparr>out = [], err = [], writes = 0\<rparr> = Some (- 1, io') \<and>
          out io' = ''hello'' @ [newline] \<and> err io' = []) \<and>
   nat 2 \<le> length [\<lparr>msg_type = 4, msg = Some ''hello''\<rparr>, \<lparr>msg_type = 3, msg = Some ''oops''\<rparr>] \<and>
   (\<exists>io'. fuzz_conversation sudo_plugin_h (\<lambda>k n. n) 2
            [\<lparr>msg_type = 4, msg = Some ''hello''\<rparr>, \<lparr>msg_type = 3, msg = Some ''oops''\<rparr>]
            \<lparr>out = [], err = [], writes = 0\<rparr> = Some (0, io') \<and>
          out io' = ''hello'' @ [newline] \<and> err io' = ''oops'' @ [newline])"
proof -
  let ?K = sudo_plugin_h
  let ?io = "\<lparr>out = [], err = [], writes = 0\<rparr>"
  let ?A = "[\<lparr>msg_type = 4, msg = Some ''hello''\<rparr>, \<lparr>msg_type = 3, msg = Some ''oops''\<rparr>]"
  let ?B = "[\<lparr>msg_type = 4, msg = Some ''hello''\<rparr>, \<lparr>msg_type = 4097, msg = Some ''Password: ''\<rparr>]"
  have k: "valid_consts ?K" by (simp add: valid_consts_def sudo_plugin_h_def)
  have la: "nat 2 \<le> length ?A" by simp
  have lb: "nat 2 \<le> length ?B" by simp
  have r: "reliable (\<lambda>k n. n)" by (simp add: reliable_def)
  have p1: "requests_input ?K \<lparr>msg_type = 4097, msg = Some ''Password: ''\<rparr>"
    by (simp add: requests_input_def sudo_plugin_h_def)
  note a = fuzz_conversation_messages [OF k la, of "\<lambda>k n. n" ?io, THEN conjunct2, THEN mp, OF r]
  note b = fuzz_conversation_messages [OF k lb, of "\<lambda>k n. n" ?io, THEN conjunct2, THEN mp, OF r]
  from a have a': "\<exists>io'. fuzz_conversation ?K (\<lambda>k n. n) 2 ?A ?io = Some (0, io') \<and>
          out io' = ''hello'' @ [newline] \<and> err io' = ''oops'' @ [newline]"
    by (simp add: written_def is_text_def rendered_def is_info_def is_error_def sudo_plugin_h_def)
  from b have b': "\<exists>io'. fuzz_conversation ?K (\<lambda>k n. n) 2 ?B ?io = Some (- 1, io') \<and>
          out io' = ''hello'' @ [newline] \<and> err io' = []"
    by (simp add: written_def is_text_def rendered_def is_info_def is_error_def sudo_plugin_h_def)
  from k lb r p1 b' la a' show ?thesis by - (intro conjI, assumption+)
qed

text \<open>
  C8 as stated fails: for an informational message with the empty text the callback returns
  \<open>0\<close> and has written nothing, where the claim has a newline on standard output; and an
  informational message that follows a prompt in the same call is never written, because
  the prompt makes the callback return first.
\<close>

theorem fuzz_conversation_unwritten:
  "fuzz_conversation sudo_plugin_h (\<lambda>k n. n) 1 [\<lparr>msg_type = 4, msg = Some []\<rparr>]
      \<lparr>out = [], err = [], writes = 0\<rparr> = Some (0, \<lparr>out = [], err = [], writes = 0\<rparr>) \<and>
   out \<lparr>out = [], err = [], writes = 0\<rparr> \<noteq> [] @ [newline] \<and>
   fuzz_conversation sudo_plugin_h (\<lambda>k n. n) 2
      [\<lparr>msg_type = 1, msg = Some ''Password: ''\<rparr>, \<lparr>msg_type = 4, msg = Some ''hello''\<rparr>]
      \<lparr>out = [], err = [], writes = 0\<rparr> = Some (- 1, \<lparr>out = [], err = [], writes = 0\<rparr>) \<and>
   out \<lparr>out = [], err = [], writes = 0\<rparr> \<noteq> ''hello'' @ [newline]"
  using conv_example_empty conv_example_after_prompt by simp

text \<open>
  C9. Releasing an array whose \<open>entries\<close> pointer is null frees neither a string nor a
  buffer (the list of events is empty) and leaves \<open>entries\<close>, \<open>len\<close> and \<open>asize\<close>
  zero, whatever \<open>len\<close> and \<open>asize\<close> were.
\<close>

theorem free_dynamic_array_null:
  "entries arr = None \<Longrightarrow> free_dynamic_array arr = Some ([], empty_array)"
  by (simp add: free_dynamic_array_def empty_array_def)

theorem free_dynamic_array_null_witness:
  "entries empty_array = None \<and> free_dynamic_array empty_array = Some ([], empty_array)"
  using free_dynamic_array_null [of empty_array] by (simp add: empty_array_def)

text \<open>
  C10. Both callbacks look at \<open>msg_type\<close> only through \<^verbatim>\<open>msg_type & 0xff\<close>. Two calls of
  \<open>fuzz_printf\<close> whose types agree modulo 256, and two calls of \<open>fuzz_conversation\<close>
  whose message arrays agree in every text and, modulo 256, in every type, give the same
  return value and leave the same bytes on standard output and standard error (and assign
  \<^verbatim>\<open>errno\<close> alike).
\<close>

theorem callbacks_low_byte:
  "(a mod 256 = b mod 256 \<longrightarrow> fuzz_printf K vfp a fmt ap io = fuzz_printf K vfp b fmt ap io) \<and>
   (list_all2 same_low_byte msgs msgs' \<longrightarrow>
      fuzz_conversation K dev num_msgs msgs io = fuzz_conversation K dev num_msgs msgs' io)"
proof (intro conjI impI)
  assume "a mod 256 = b mod 256"
  then show "fuzz_printf K vfp a fmt ap io = fuzz_printf K vfp b fmt ap io"
    by (rule fuzz_printf_low_byte)
next
  assume "list_all2 same_low_byte msgs msgs'"
  then show "fuzz_conversation K dev num_msgs msgs io = fuzz_conversation K dev num_msgs msgs' io"
    unfolding fuzz_conversation_def by (rule conv_loop_low_byte)
qed


theorem callbacks_low_byte_witness:
  "(4::int) mod 256 = 8196 mod 256 \<and>
   fuzz_printf sudo_plugin_h (\<lambda>fp fmt ap io. (int (length fmt), emit fp fmt io)) 4 ''x'' () \<lparr>out = [], err = [], writes = 0\<rparr>
     = fuzz_printf sudo_plugin_h (\<lambda>fp fmt ap io. (int (length fmt), emit fp fmt io)) 8196 ''x'' () \<lparr>out = [], err = [], writes = 0\<rparr> \<and>
   list_all2 same_low_byte [\<lparr>msg_type = 4, msg = Some ''hi''\<rparr>] [\<lparr>msg_type = 8196, msg = Some ''hi''\<rparr>] \<and>
   fuzz_conversation sudo_plugin_h (\<lambda>k n. n) 1 [\<lparr>msg_type = 4, msg = Some ''hi''\<rparr>] \<lparr>out = [], err = [], writes = 0\<rparr>
     = fuzz_conversation sudo_plugin_h (\<lambda>k n. n) 1 [\<lparr>msg_type = 8196, msg = Some ''hi''\<rparr>] \<lparr>out = [], err = [], writes = 0\<rparr>"
proof -
  have h1: "(4::int) mod 256 = 8196 mod 256" by simp
  have h2: "list_all2 same_low_byte [\<lparr>msg_type = 4, msg = Some ''hi''\<rparr>] [\<lparr>msg_type = 8196, msg = Some ''hi''\<rparr>]"
    by (simp add: same_low_byte_def)
  note t = callbacks_low_byte [of 4 8196 sudo_plugin_h "\<lambda>fp fmt ap io. (int (length fmt), emit fp fmt io)" "''x''" "()"
      "\<lparr>out = [], err = [], writes = 0\<rparr>" "[\<lparr>msg_type = 4, msg = Some ''hi''\<rparr>]" "[\<lparr>msg_type = 8196, msg = Some ''hi''\<rparr>]"
      "\<lambda>k n. n" 1]
  note t1 = t [THEN conjunct1, THEN mp, OF h1]
  note t2 = t [THEN conjunct2, THEN mp, OF h2]
  from h1 t1 h2 t2 show ?thesis by - (intro conjI, assumption+)
qed

end
